theory Spec2Isabelle
  imports Complex_Main "HOL-Library.Signed_Division" "HOL-Library.Sublist"
begin

section \<open>The history buffer of \<^verbatim>\<open>bmp280_x11_gui5.cpp\<close>\<close>

text \<open>
  The monitor keeps its readings in \<^verbatim>\<open>class CircularBuffer\<close>: a
  \<^verbatim>\<open>std::array<DataPoint, MAX_POINTS>\<close> with a write position \<^verbatim>\<open>head\<close>, an
  occupancy \<^verbatim>\<open>size\<close> and two smoothing caches.  The embedding keeps these fields.
  A \<^verbatim>\<open>float\<close> is modelled by the real number it denotes (infinities and NaN are outside
  the model; the rounding of its arithmetic is a parameter, see \<open>float_ops\<close>),
  \<^verbatim>\<open>time_t\<close> as \<open>int\<close>, \<^verbatim>\<open>size_t\<close> as \<open>nat\<close> with the reduction
  modulo \<open>2 ^ 64\<close> written out where a caller-supplied index enters the arithmetic.
\<close>

definition MAX_POINTS :: nat where
  "MAX_POINTS = 300"

record DataPoint =
  temperature :: real
  pressure :: real
  timestamp :: int

record CircularBuffer =
  buffer :: "DataPoint list"
  head :: nat
  size_cb :: nat
  temp_cache :: "real list"
  press_cache :: "real list"

datatype exception =
  Out_of_range string
  | Runtime_error string

text \<open>
  The constructor fills both caches with \<^verbatim>\<open>0.0f\<close> and leaves the array as it finds it;
  \<open>mem\<close> gives the value each of the \<^verbatim>\<open>MAX_POINTS\<close> slots happens to hold.
\<close>

definition CircularBuffer_new :: "(nat \<Rightarrow> DataPoint) \<Rightarrow> CircularBuffer" where
  "CircularBuffer_new mem =
     \<lparr>buffer = map mem [0..<MAX_POINTS], head = 0, size_cb = 0,
      temp_cache = replicate MAX_POINTS 0, press_cache = replicate MAX_POINTS 0\<rparr>"

definition push :: "CircularBuffer \<Rightarrow> DataPoint \<Rightarrow> CircularBuffer" where
  "push b point =
     b\<lparr>buffer := (buffer b)[head b := point],
       head := (head b + 1) mod MAX_POINTS,
       size_cb := (if size_cb b < MAX_POINTS then size_cb b + 1 else size_cb b),
       temp_cache := map (\<lambda>_. 0) (temp_cache b),
       press_cache := map (\<lambda>_. 0) (press_cache b)\<rparr>"

definition get_size :: "CircularBuffer \<Rightarrow> nat" where
  "get_size b = size_cb b"

text \<open>
  \<^verbatim>\<open>operator[]\<close>: the only check is the one for an empty buffer; the index is then
  translated to a slot by unsigned arithmetic.
\<close>

definition slot :: "CircularBuffer \<Rightarrow> nat \<Rightarrow> nat" where
  "slot b index = ((head b + MAX_POINTS - size_cb b + index) mod 2 ^ 64) mod MAX_POINTS"

definition at_cb :: "CircularBuffer \<Rightarrow> nat \<Rightarrow> exception + DataPoint" where
  "at_cb b index =
     (if size_cb b = 0 then Inl (Out_of_range ''Buffer is empty'')
      else Inr (buffer b ! slot b index))"

definition clear :: "CircularBuffer \<Rightarrow> CircularBuffer" where
  "clear b =
     b\<lparr>head := 0, size_cb := 0,
       temp_cache := map (\<lambda>_. 0) (temp_cache b),
       press_cache := map (\<lambda>_. 0) (press_cache b)\<rparr>"

text \<open>
  \<^verbatim>\<open>smooth_value\<close>.  The method is \<^verbatim>\<open>const\<close> but writes the \<^verbatim>\<open>mutable\<close> caches, so
  the model returns the value together with the buffer after the call.  \<open>window\<close> is a C++
  \<^verbatim>\<open>int\<close>, whose division truncates towards zero (\<open>sdiv\<close>); the loop variable starts at
  \<open>max 0 \<dots>\<close> and only grows, so its conversion to \<^verbatim>\<open>size_t\<close> is its value.  The cache
  is a \<^verbatim>\<open>std::vector\<close>, whose \<^verbatim>\<open>operator[]\<close> is undefined outside its bounds: the
  model answers \<open>None\<close> there.

  The sum and the quotient are computed in \<^verbatim>\<open>float\<close>.  A \<^verbatim>\<open>float\<close> is modelled by the
  real number it denotes, and the machine's operations on it are parameters, collected in
  \<open>float_ops\<close>: \<open>fadd\<close> is the rounded addition, \<open>fdiv\<close> the rounded division, and
  \<open>of_count\<close> the conversion of an \<^verbatim>\<open>int\<close>.  What is proved holds for every such
  arithmetic; \<open>ieee_single\<close> below is the IEEE 754 single-precision one.
\<close>

record float_ops =
  fadd :: "real \<Rightarrow> real \<Rightarrow> real"
  fdiv :: "real \<Rightarrow> real \<Rightarrow> real"
  of_count :: "int \<Rightarrow> real"

definition field :: "bool \<Rightarrow> DataPoint \<Rightarrow> real" where
  "field is_temp d = (if is_temp then temperature d else pressure d)"

function smooth_loop ::
  "float_ops \<Rightarrow> CircularBuffer \<Rightarrow> bool \<Rightarrow> int \<Rightarrow> int \<Rightarrow> real \<Rightarrow> int \<Rightarrow> real \<times> int" where
  "smooth_loop F b is_temp i hi acc count =
     (if i \<le> hi
      then smooth_loop F b is_temp (i + 1) hi
             (fadd F acc (field is_temp (buffer b ! slot b (nat i)))) (count + 1)
      else (acc, count))"
  by pat_completeness auto
termination
  by (relation "measure (\<lambda>(F, b, is_temp, i, hi, acc, count). nat (hi + 1 - i))") auto

definition smooth_value ::
  "float_ops \<Rightarrow> CircularBuffer \<Rightarrow> bool \<Rightarrow> nat \<Rightarrow> int \<Rightarrow> (real \<times> CircularBuffer) option" where
  "smooth_value F b is_temp index0 window =
     (if size_cb b = 0 then Some (0, b)
      else
        let index = min index0 (size_cb b - 1);
            cache = (if is_temp then temp_cache b else press_cache b)
        in if length cache \<le> index then None
           else if cache ! index = 0 then
             let (acc, count) =
                   smooth_loop F b is_temp
                     (max 0 (int index - window sdiv 2))
                     (min (int (size_cb b) - 1) (int index + window sdiv 2)) 0 0;
                 cache' = cache[index :=
                   (if count > 0 then fdiv F acc (of_count F count)
                    else field is_temp (buffer b ! slot b index))]
             in Some (cache' ! index,
                      if is_temp then b\<lparr>temp_cache := cache'\<rparr> else b\<lparr>press_cache := cache'\<rparr>)
           else Some (cache ! index, b))"

text \<open>
  What the class maintains: the array and the caches have \<^verbatim>\<open>MAX_POINTS\<close> entries,
  \<^verbatim>\<open>head\<close> is a valid slot and \<^verbatim>\<open>size\<close> never exceeds the capacity.
\<close>

definition wf_cb :: "CircularBuffer \<Rightarrow> bool" where
  "wf_cb b \<longleftrightarrow>
     length (buffer b) = MAX_POINTS \<and> head b < MAX_POINTS \<and> size_cb b \<le> MAX_POINTS \<and>
     length (temp_cache b) = MAX_POINTS \<and> length (press_cache b) = MAX_POINTS"

text \<open>The retained samples in logical order, oldest first.\<close>

definition contents :: "CircularBuffer \<Rightarrow> DataPoint list" where
  "contents b =
     map (\<lambda>i. buffer b ! ((head b + MAX_POINTS - size_cb b + i) mod MAX_POINTS)) [0..<size_cb b]"

definition pushes :: "CircularBuffer \<Rightarrow> DataPoint list \<Rightarrow> CircularBuffer" where
  "pushes b xs = foldl push b xs"

text \<open>
  The smoothed value in the words of the specification.  \<open>window xs i w\<close> are the retained
  samples at the logical positions \<open>max 0 (i - w / 2)\<close> to \<open>min (size - 1) (i + w / 2)\<close>;
  \<open>mean\<close> is the arithmetic mean; \<open>float_mean\<close> is the mean as \<^verbatim>\<open>float\<close> arithmetic
  computes it, adding from the left, starting at \<^verbatim>\<open>0.0f\<close>, and dividing by the count;
  \<open>smoothed\<close> is the value of a window, the sample itself when the window is empty.
\<close>

definition window :: "'a list \<Rightarrow> nat \<Rightarrow> int \<Rightarrow> 'a list" where
  "window xs i w =
     (let lo = max 0 (int i - w sdiv 2);
          hi = min (int (length xs) - 1) (int i + w sdiv 2)
      in take (nat (hi + 1 - lo)) (drop (nat lo) xs))"

definition mean :: "real list \<Rightarrow> real" where
  "mean ys = sum_list ys / real (length ys)"

definition float_mean :: "float_ops \<Rightarrow> real list \<Rightarrow> real" where
  "float_mean F ys = fdiv F (foldl (fadd F) 0 ys) (of_count F (int (length ys)))"

definition smoothed :: "float_ops \<Rightarrow> DataPoint list \<Rightarrow> bool \<Rightarrow> nat \<Rightarrow> int \<Rightarrow> real" where
  "smoothed F xs is_temp i w =
     (if window xs i w = [] then field is_temp (xs ! i)
      else float_mean F (map (field is_temp) (window xs i w)))"

text \<open>Arithmetic without rounding.\<close>

definition exact_ops :: float_ops where
  "exact_ops = \<lparr>fadd = (\<lambda>x y. x + y), fdiv = (\<lambda>x y. x / y), of_count = (\<lambda>n. of_int n)\<rparr>"

text \<open>
  The cache the call selects, and the class's states as the program reaches them: by
  \<^verbatim>\<open>push\<close>, \<^verbatim>\<open>clear\<close> and \<^verbatim>\<open>smooth_value\<close>, which every caller invokes with the
  default window 5.
\<close>

definition cache_of :: "CircularBuffer \<Rightarrow> bool \<Rightarrow> real list" where
  "cache_of b is_temp = (if is_temp then temp_cache b else press_cache b)"

definition set_cache :: "CircularBuffer \<Rightarrow> bool \<Rightarrow> real list \<Rightarrow> CircularBuffer" where
  "set_cache b is_temp c = (if is_temp then b\<lparr>temp_cache := c\<rparr> else b\<lparr>press_cache := c\<rparr>)"

datatype op = Push DataPoint | Clear | Smooth bool nat

fun apply_op :: "float_ops \<Rightarrow> CircularBuffer \<Rightarrow> op \<Rightarrow> CircularBuffer" where
  "apply_op F b (Push p) = push b p"
| "apply_op F b Clear = clear b"
| "apply_op F b (Smooth is_temp index) =
     (case smooth_value F b is_temp index 5 of Some (v, b') \<Rightarrow> b' | None \<Rightarrow> b)"

definition run_ops :: "float_ops \<Rightarrow> CircularBuffer \<Rightarrow> op list \<Rightarrow> CircularBuffer" where
  "run_ops F b ops = foldl (apply_op F) b ops"

text \<open>
  A cache entry is either the \<^verbatim>\<open>0.0f\<close> of "not computed" or the smoothed value for the
  window 5.
\<close>

definition cache_ok :: "float_ops \<Rightarrow> CircularBuffer \<Rightarrow> bool" where
  "cache_ok F b \<longleftrightarrow>
     (\<forall>k. \<forall>i<size_cb b. cache_of b k ! i = 0 \<or> cache_of b k ! i = smoothed F (contents b) k i 5)"

section \<open>The monitor: state, error lists and the serial reader\<close>

text \<open>
  \<^verbatim>\<open>class BMP280Gui\<close>, restricted to the fields the acquisition and persistence code
  touches.  The pending bytes \<^verbatim>\<open>serial_buffer[0 .. serial_buf_pos)\<close> are one list,
  \<open>serial_buffer\<close>, whose length is \<^verbatim>\<open>serial_buf_pos\<close>.  Every \<^verbatim>\<open>time(nullptr)\<close> of a
  call is the argument \<open>now\<close>.  Console output and the append to \<^verbatim>\<open>logs/errors.log\<close>
  are not part of the state.  Functions of the C++ library whose results depend on
  floating-point text conversion are taken as parameters, collected in \<open>stdlib\<close>:
  \<open>stof\<close> is \<^verbatim>\<open>std::stof\<close> with \<open>None\<close> for a thrown exception, \<open>to_string\<close> is
  \<^verbatim>\<open>std::to_string\<close> on a \<^verbatim>\<open>float\<close>.
\<close>

datatype speed = B9600 | B115200

record stdlib =
  stof :: "string \<Rightarrow> real option"
  to_string :: "real \<Rightarrow> string"

record BMP280Gui =
  fd :: int
  history :: CircularBuffer
  filename :: string
  error_messages :: "string list"
  persistent_errors :: "string list"
  last_error_time :: int
  last_reconnect_attempt :: int
  reconnect_attempts :: int
  temp_range :: "real \<times> real"
  press_range :: "real \<times> real"
  baud_rate :: speed
  csv_delimiter :: char
  paused :: bool
  serial_buffer :: string

text \<open>\<^verbatim>\<open>add_error\<close> keeps the five most recent messages in either list.\<close>

definition BUFFER_SIZE :: nat where
  "BUFFER_SIZE = 256"

definition add_error :: "int \<Rightarrow> string \<Rightarrow> bool \<Rightarrow> BMP280Gui \<Rightarrow> BMP280Gui" where
  "add_error now msg persistent g =
     g\<lparr>error_messages :=
         (if length (error_messages g) \<ge> 5 then tl (error_messages g) else error_messages g) @ [msg],
       persistent_errors :=
         (if persistent
          then (if length (persistent_errors g) \<ge> 5 then tl (persistent_errors g)
                else persistent_errors g) @ [msg]
          else persistent_errors g),
       last_error_time := now\<rparr>"

definition parse_value :: "stdlib \<Rightarrow> string \<Rightarrow> real option" where
  "parse_value L line =
     (case dropWhile (\<lambda>c. c \<notin> set ''-0123456789'') line of
        [] \<Rightarrow> None
      | c # cs \<Rightarrow> stof L (c # cs))"

record reading =
  temp :: real
  press :: real
  got_temp :: bool
  got_press :: bool

definition process_line ::
  "stdlib \<Rightarrow> int \<Rightarrow> string \<Rightarrow> reading \<times> BMP280Gui \<Rightarrow> reading \<times> BMP280Gui" where
  "process_line L now line rg =
     (case rg of (r, g) \<Rightarrow>
        (case (if sublist ''Temp'' line then parse_value L line else None) of
           Some v \<Rightarrow>
             if - 40 \<le> v \<and> v \<le> 85 then (r\<lparr>temp := v, got_temp := True\<rparr>, g)
             else (r, add_error now (''Invalid temperature: '' @ to_string L v) False g)
         | None \<Rightarrow>
             (case (if sublist ''Pres'' line then parse_value L line else None) of
                Some v \<Rightarrow>
                  if 300 \<le> v \<and> v \<le> 1100 then (r\<lparr>press := v, got_press := True\<rparr>, g)
                  else (r, add_error now (''Invalid pressure: '' @ to_string L v) False g)
              | None \<Rightarrow> (r, g))))"

definition newline :: char where
  "newline = CHR 0x0A"

function lines_loop ::
  "stdlib \<Rightarrow> int \<Rightarrow> string \<Rightarrow> reading \<times> BMP280Gui \<Rightarrow> string \<times> reading \<times> BMP280Gui" where
  "lines_loop L now rest rg =
     (if newline \<in> set rest
      then lines_loop L now (tl (dropWhile (\<lambda>c. c \<noteq> newline) rest))
             (process_line L now (takeWhile (\<lambda>c. c \<noteq> newline) rest) rg)
      else (rest, rg))"
  by pat_completeness auto
termination
proof (relation "measure (\<lambda>(L, now, rest, rg). length rest)")
  show "wf (measure (\<lambda>(L, now, rest, rg). length rest))" by simp
next
  fix L :: stdlib and now :: int and rest :: string and rg :: "reading \<times> BMP280Gui"
  assume "newline \<in> set rest"
  then have "dropWhile (\<lambda>c. c \<noteq> newline) rest \<noteq> []" by (auto simp: dropWhile_eq_Nil_conv)
  then have "length (tl (dropWhile (\<lambda>c. c \<noteq> newline) rest)) <
             length (dropWhile (\<lambda>c. c \<noteq> newline) rest)" by simp
  also have "\<dots> \<le> length rest" by (rule length_dropWhile_le)
  finally show "((L, now, tl (dropWhile (\<lambda>c. c \<noteq> newline) rest),
                  process_line L now (takeWhile (\<lambda>c. c \<noteq> newline) rest) rg),
                 (L, now, rest, rg)) \<in> measure (\<lambda>(L, now, rest, rg). length rest)"
    by simp
qed

datatype read_result = Read_fails bool string | Read_gives string

definition read_serial ::
  "stdlib \<Rightarrow> int \<Rightarrow> int \<Rightarrow> string \<Rightarrow> read_result \<Rightarrow> BMP280Gui \<Rightarrow> BMP280Gui" where
  "read_serial L now ready select_error rd g =
     (if fd g = - 1 \<or> paused g then g
      else if ready < 0 then (add_error now (''Select error: '' @ select_error) False g)\<lparr>fd := - 1\<rparr>
      else if ready = 0 then g
      else
        (case rd of
           Read_fails eagain msg \<Rightarrow>
             if \<not> eagain then (add_error now (''Serial read error: '' @ msg) False g)\<lparr>fd := - 1\<rparr>
             else g
         | Read_gives avail \<Rightarrow>
             (let data = take (BUFFER_SIZE - length (serial_buffer g) - 1) avail
              in if data = [] then g
                 else
                   (case lines_loop L now (serial_buffer g @ data)
                           (\<lparr>temp = 0, press = 0, got_temp = False, got_press = False\<rparr>, g) of
                      (rest, r, g1) \<Rightarrow>
                        (if got_temp r \<and> got_press r
                         then g1\<lparr>history := push (history g1)
                                  \<lparr>temperature = temp r, pressure = press r, timestamp = now\<rparr>\<rparr>
                         else g1)\<lparr>serial_buffer := rest\<rparr>))))"

text \<open>
  What one completed line contributes, in the words of the specification: a temperature when
  the line contains \<^verbatim>\<open>Temp\<close> and its number lies in \<open>[-40, 85]\<close>; a pressure when the line
  was not taken as a temperature line, contains \<^verbatim>\<open>Pres\<close> and its number lies in
  \<open>[300, 1100]\<close>.
\<close>

definition temperature_of :: "stdlib \<Rightarrow> string \<Rightarrow> real option" where
  "temperature_of L line =
     (if sublist ''Temp'' line
      then (case parse_value L line of
              Some v \<Rightarrow> if - 40 \<le> v \<and> v \<le> 85 then Some v else None
            | None \<Rightarrow> None)
      else None)"

definition pressure_of :: "stdlib \<Rightarrow> string \<Rightarrow> real option" where
  "pressure_of L line =
     (if sublist ''Temp'' line \<and> parse_value L line \<noteq> None then None
      else if sublist ''Pres'' line
      then (case parse_value L line of
              Some v \<Rightarrow> if 300 \<le> v \<and> v \<le> 1100 then Some v else None
            | None \<Rightarrow> None)
      else None)"

text \<open>A sequence of calls of \<^verbatim>\<open>read_serial\<close>, each with what the system answers.\<close>

definition read_serial_run ::
  "stdlib \<Rightarrow> BMP280Gui \<Rightarrow> (int \<times> int \<times> string \<times> read_result) list \<Rightarrow> BMP280Gui" where
  "read_serial_run L g evs =
     foldl (\<lambda>g ev. case ev of (now, ready, select_error, rd) \<Rightarrow>
              read_serial L now ready select_error rd g) g evs"

text \<open>The effect of one line on the reading under assembly.\<close>

definition line_reading :: "stdlib \<Rightarrow> string \<Rightarrow> reading \<Rightarrow> reading" where
  "line_reading L line r =
     (case temperature_of L line of
        Some v \<Rightarrow> r\<lparr>temp := v, got_temp := True\<rparr>
      | None \<Rightarrow>
          (case pressure_of L line of
             Some v \<Rightarrow> r\<lparr>press := v, got_press := True\<rparr>
           | None \<Rightarrow> r))"

section \<open>The monitor: reconnection\<close>

text \<open>
  \<^verbatim>\<open>try_reconnect\<close> with the functions it calls.  \<open>os\<close> holds the answers of the
  operating system during one call: which device paths exist, what \<^verbatim>\<open>open\<close> returns, and
  whether \<^verbatim>\<open>tcgetattr\<close> and \<^verbatim>\<open>tcsetattr\<close> succeed.  \<^verbatim>\<open>difftime\<close> on two
  \<^verbatim>\<open>time_t\<close> values is their difference.
\<close>

definition RECONNECT_TIMEOUT :: int where
  "RECONNECT_TIMEOUT = 5"

definition max_reconnect_attempts :: int where
  "max_reconnect_attempts = 10"

record os =
  path_exists :: "string \<Rightarrow> bool"
  os_open :: "string \<Rightarrow> int"
  tcgetattr_ok :: "int \<Rightarrow> bool"
  tcsetattr_ok :: "int \<Rightarrow> speed \<Rightarrow> bool"

definition SerialPort_new :: "os \<Rightarrow> string \<Rightarrow> speed \<Rightarrow> exception + int" where
  "SerialPort_new sys port baud =
     (let f = os_open sys port
      in if f = - 1 then Inl (Runtime_error (''Failed to open serial port: '' @ port))
         else if \<not> tcgetattr_ok sys f then Inl (Runtime_error ''Failed to get serial attributes'')
         else if \<not> tcsetattr_ok sys f baud then Inl (Runtime_error ''Failed to set serial attributes'')
         else Inr f)"

definition what :: "exception \<Rightarrow> string" where
  "what e = (case e of Out_of_range m \<Rightarrow> m | Runtime_error m \<Rightarrow> m)"

definition digit_string :: "nat \<Rightarrow> string" where
  "digit_string i = [char_of (48 + i)]"

definition find_serial_port :: "os \<Rightarrow> string option" where
  "find_serial_port sys =
     List.find (path_exists sys)
       (concat (map (\<lambda>prefix. map (\<lambda>i. prefix @ digit_string i) [0..<10])
          [''/dev/ttyACM'', ''/dev/ttyUSB'']))"

definition open_serial :: "os \<Rightarrow> int \<Rightarrow> string \<Rightarrow> speed \<Rightarrow> BMP280Gui \<Rightarrow> BMP280Gui \<times> bool" where
  "open_serial sys now port baud g =
     (case SerialPort_new sys port baud of
        Inr f \<Rightarrow> (g\<lparr>fd := f\<rparr>, True)
      | Inl e \<Rightarrow> ((add_error now (what e) True g)\<lparr>fd := - 1\<rparr>, False))"

fun reconnect_bauds ::
  "os \<Rightarrow> int \<Rightarrow> string \<Rightarrow> speed list \<Rightarrow> BMP280Gui \<Rightarrow> BMP280Gui" where
  "reconnect_bauds sys now port [] g =
     add_error now (''Failed to reconnect to '' @ port @ '' with any baud rate'') True g"
| "reconnect_bauds sys now port (baud # bauds) g =
     (case open_serial sys now port baud g of
        (g1, True) \<Rightarrow>
          g1\<lparr>baud_rate := baud, persistent_errors := [], error_messages := [],
             reconnect_attempts := 0\<rparr>
      | (g1, False) \<Rightarrow> reconnect_bauds sys now port bauds g1)"

definition try_reconnect :: "os \<Rightarrow> int \<Rightarrow> BMP280Gui \<Rightarrow> BMP280Gui" where
  "try_reconnect sys now g =
     (if fd g \<noteq> - 1 \<or> reconnect_attempts g \<ge> max_reconnect_attempts then g
      else if now - last_reconnect_attempt g < RECONNECT_TIMEOUT then g
      else
        (let g1 = g\<lparr>last_reconnect_attempt := now,
                    reconnect_attempts := reconnect_attempts g + 1\<rparr>
         in case find_serial_port sys of
              None \<Rightarrow> add_error now ''No serial port available'' True g1
            | Some port \<Rightarrow> reconnect_bauds sys now port [B9600, B115200] g1))"

text \<open>
  Executions.  Between two calls of \<^verbatim>\<open>try_reconnect\<close> any other code of the program may
  run (reading, event handling, saving); no other code writes \<^verbatim>\<open>last_reconnect_attempt\<close>
  or \<^verbatim>\<open>reconnect_attempts\<close>, so such a step replaces the rest of the state and keeps these
  two fields.  \<open>attempts\<close> lists the reconnection attempts of an execution, each with its
  time and whether it ended with an open port; an attempt is made when the call passes both
  early returns.
\<close>

datatype step = Reconnect os int | Other BMP280Gui

fun exec_step :: "BMP280Gui \<Rightarrow> step \<Rightarrow> BMP280Gui" where
  "exec_step g (Reconnect sys now) = try_reconnect sys now g"
| "exec_step g (Other g') =
     g'\<lparr>last_reconnect_attempt := last_reconnect_attempt g,
        reconnect_attempts := reconnect_attempts g\<rparr>"

definition attempt_made :: "BMP280Gui \<Rightarrow> int \<Rightarrow> bool" where
  "attempt_made g now \<longleftrightarrow>
     \<not> (fd g \<noteq> - 1 \<or> reconnect_attempts g \<ge> max_reconnect_attempts) \<and>
     \<not> now - last_reconnect_attempt g < RECONNECT_TIMEOUT"

fun attempts :: "BMP280Gui \<Rightarrow> step list \<Rightarrow> (int \<times> bool) list" where
  "attempts g [] = []"
| "attempts g (Reconnect sys now # ss) =
     (if attempt_made g now then [(now, fd (try_reconnect sys now g) \<noteq> - 1)] else []) @
     attempts (try_reconnect sys now g) ss"
| "attempts g (Other g' # ss) = attempts (exec_step g (Other g')) ss"

text \<open>Attempt times that are at least the cool-down apart, starting from the last stamp.\<close>

fun spaced :: "int \<Rightarrow> (int \<times> bool) list \<Rightarrow> bool" where
  "spaced t0 [] = True"
| "spaced t0 ((t, ok) # ts) = (RECONNECT_TIMEOUT \<le> t - t0 \<and> spaced t ts)"

text \<open>
  The calls of \<^verbatim>\<open>try_reconnect\<close> in an execution that change the state at all, each with
  its time and whether the port is open afterwards.
\<close>

fun state_changes :: "BMP280Gui \<Rightarrow> step list \<Rightarrow> (int \<times> bool) list" where
  "state_changes g [] = []"
| "state_changes g (Reconnect sys now # ss) =
     (if try_reconnect sys now g \<noteq> g then [(now, fd (try_reconnect sys now g) \<noteq> - 1)] else []) @
     state_changes (try_reconnect sys now g) ss"
| "state_changes g (Other g' # ss) = state_changes (exec_step g (Other g')) ss"

section \<open>The program: \<^verbatim>\<open>main\<close>, \<^verbatim>\<open>run\<close> and the quit key\<close>

text \<open>
  The control flow that decides the exit code.  The constructor fails when
  \<^verbatim>\<open>XOpenDisplay\<close> returns null (\<^verbatim>\<open>X11Display\<close> throws, the constructor rethrows).
  \<^verbatim>\<open>run\<close> first waits for an \<^verbatim>\<open>Expose\<close> event and then loops \<^verbatim>\<open>while (true)\<close>;
  each round handles the pending events, and \<^verbatim>\<open>handle_events\<close> throws
  \<^verbatim>\<open>std::runtime_error("User quit")\<close> on the key \<^verbatim>\<open>q\<close> or \<^verbatim>\<open>Q\<close>.  The other
  handlers, the state update and the rendering neither leave the loop nor decide the exit
  code; they are left out.  A run is given by the events read while waiting and the events
  pending in each round; \<open>None\<close> says that the loop is still running when these are used up.
  \<^verbatim>\<open>main\<close> returns 1 from its \<^verbatim>\<open>catch (const std::exception&)\<close> and 0 after
  the \<^verbatim>\<open>try\<close> block.
\<close>

datatype xevent = Expose | KeyPress nat | Other_event

definition XK_q :: nat where "XK_q = 0x71"
definition XK_Q :: nat where "XK_Q = 0x51"

fun handle_events :: "xevent list \<Rightarrow> exception + unit" where
  "handle_events [] = Inr ()"
| "handle_events (KeyPress key # evts) =
     (if key = XK_q \<or> key = XK_Q then Inl (Runtime_error ''User quit'')
      else handle_events evts)"
| "handle_events (evt # evts) = handle_events evts"

fun main_loop :: "xevent list list \<Rightarrow> (exception + unit) option" where
  "main_loop [] = None"
| "main_loop (pending # ticks) =
     (case handle_events pending of
        Inl e \<Rightarrow> Some (Inl e)
      | Inr _ \<Rightarrow> main_loop ticks)"

definition run :: "xevent list \<Rightarrow> xevent list list \<Rightarrow> (exception + unit) option" where
  "run startup ticks = (if Expose \<in> set startup then main_loop ticks else None)"

definition BMP280Gui_new :: "bool \<Rightarrow> exception + unit" where
  "BMP280Gui_new display_opens =
     (if display_opens then Inr () else Inl (Runtime_error ''Cannot open display''))"

definition main :: "bool \<Rightarrow> xevent list \<Rightarrow> xevent list list \<Rightarrow> int option" where
  "main display_opens startup ticks =
     (case BMP280Gui_new display_opens of
        Inl e \<Rightarrow> Some 1
      | Inr app \<Rightarrow>
          (case run startup ticks of
             None \<Rightarrow> None
           | Some (Inl e) \<Rightarrow> Some 1
           | Some (Inr _) \<Rightarrow> Some 0))"

section \<open>The monitor: saving and loading\<close>

text \<open>
  \<^verbatim>\<open>save_data\<close> and \<^verbatim>\<open>load_data\<close>.  The files are a map from paths to contents;
  whether a file opens, whether the write or the rename fails, is an input of the call
  (creating the directory \<^verbatim>\<open>logs\<close> is taken to succeed).  The stream operators on
  \<^verbatim>\<open>float\<close> are parameters, collected in \<open>iostream\<close>: \<open>put_float\<close> is
  \<^verbatim>\<open>operator<<\<close>, \<open>get_float\<close> is \<^verbatim>\<open>operator>>\<close>, which answers with the value and
  the unread rest, or with \<open>None\<close> when it sets the fail bit.  The operators on \<^verbatim>\<open>char\<close>
  and on \<^verbatim>\<open>time_t\<close> (a 64-bit \<^verbatim>\<open>long\<close>) are defined here: \<^verbatim>\<open>>>\<close> skips white space
  first; an integer is an optional sign and decimal digits, and fails outside the range of the
  type.
\<close>

definition is_digit :: "char \<Rightarrow> bool" where
  "is_digit c \<longleftrightarrow> c \<in> set ''0123456789''"

definition digits_val :: "string \<Rightarrow> int" where
  "digits_val ds = foldl (\<lambda>a c. 10 * a + (of_char c - 48)) 0 ds"

definition is_space :: "char \<Rightarrow> bool" where
  "is_space c \<longleftrightarrow> c \<in> set [CHR '' '', CHR 0x09, CHR 0x0A, CHR 0x0B, CHR 0x0C, CHR 0x0D]"

definition get_char :: "string \<Rightarrow> (char \<times> string) option" where
  "get_char s = (case dropWhile is_space s of [] \<Rightarrow> None | c # r \<Rightarrow> Some (c, r))"

function digits_of :: "int \<Rightarrow> string" where
  "digits_of n =
     (if n < 10 then [char_of (48 + n)]
      else digits_of (n div 10) @ [char_of (48 + n mod 10)])"
  by pat_completeness auto
termination
  by (relation "measure nat") auto

definition put_long :: "int \<Rightarrow> string" where
  "put_long i = (if i < 0 then CHR ''-'' # digits_of (- i) else digits_of i)"

definition get_long :: "string \<Rightarrow> (int \<times> string) option" where
  "get_long s =
     (let s0 = dropWhile is_space s;
          neg = (s0 \<noteq> [] \<and> hd s0 = CHR ''-'');
          s1 = (if s0 \<noteq> [] \<and> (hd s0 = CHR ''-'' \<or> hd s0 = CHR ''+'') then tl s0 else s0);
          ds = takeWhile is_digit s1;
          v = (if neg then - digits_val ds else digits_val ds)
      in if ds = [] \<or> v < - (2 ^ 63) \<or> 2 ^ 63 - 1 < v then None
         else Some (v, dropWhile is_digit s1))"

record iostream =
  put_float :: "real \<Rightarrow> string"
  get_float :: "string \<Rightarrow> (real \<times> string) option"

text \<open>
  \<^verbatim>\<open>iss >> t >> delim >> p >> delim >> ts\<close>: both separators are read into the one
  variable \<^verbatim>\<open>delim\<close>, which holds the second of them when the comparison with
  \<^verbatim>\<open>csv_delimiter\<close> is made.
\<close>

definition parse_data_line :: "iostream \<Rightarrow> string \<Rightarrow> (real \<times> real \<times> char \<times> int) option" where
  "parse_data_line S line =
     (case get_float S line of None \<Rightarrow> None | Some (t, r1) \<Rightarrow>
      case get_char r1 of None \<Rightarrow> None | Some (delim1, r2) \<Rightarrow>
      case get_float S r2 of None \<Rightarrow> None | Some (p, r3) \<Rightarrow>
      case get_char r3 of None \<Rightarrow> None | Some (delim, r4) \<Rightarrow>
      case get_long r4 of None \<Rightarrow> None | Some (ts, r5) \<Rightarrow> Some (t, p, delim, ts))"

text \<open>
  \<^verbatim>\<open>std::getline\<close> in a loop: the lines of the text without their newline; a last line
  without newline counts when it is not empty.
\<close>

fun getlines_from :: "string \<Rightarrow> string \<Rightarrow> string list" where
  "getlines_from line [] = (if line = [] then [] else [line])"
| "getlines_from line (c # cs) =
     (if c = newline then line # getlines_from [] cs else getlines_from (line @ [c]) cs)"

definition getlines :: "string \<Rightarrow> string list" where
  "getlines s = getlines_from [] s"

definition load_line :: "iostream \<Rightarrow> int \<Rightarrow> string \<Rightarrow> BMP280Gui \<Rightarrow> BMP280Gui" where
  "load_line S now line g =
     (case parse_data_line S line of
        Some (t, p, delim, ts) \<Rightarrow>
          if delim = csv_delimiter g \<and> - 40 \<le> t \<and> t \<le> 85 \<and> 300 \<le> p \<and> p \<le> 1100 \<and>
             0 < ts \<and> ts \<le> now
          then g\<lparr>history := push (history g) \<lparr>temperature = t, pressure = p, timestamp = ts\<rparr>\<rparr>
          else add_error now (''Invalid data line: '' @ line) False g
      | None \<Rightarrow> add_error now (''Invalid data line: '' @ line) False g)"

definition load_data ::
  "iostream \<Rightarrow> int \<Rightarrow> (string \<rightharpoonup> string) \<Rightarrow> bool \<Rightarrow> string \<Rightarrow> BMP280Gui \<Rightarrow> BMP280Gui \<times> bool" where
  "load_data S now files opens path g =
     (case files path of
        None \<Rightarrow> (g, False)
      | Some text \<Rightarrow>
          (let g1 = g\<lparr>history := clear (history g)\<rparr>
           in if \<not> opens then (add_error now (''Failed to open data file: '' @ path) False g1, False)
              else
                (let g2 = foldl (\<lambda>g line. load_line S now line g) g1 (getlines text)
                 in (g2, 0 < get_size (history g2)))))"

text \<open>
  \<^verbatim>\<open>save_data\<close> writes one line per sample through \<^verbatim>\<open>operator[]\<close>, closes the
  temporary file and renames it over the target.
\<close>

definition data_line :: "iostream \<Rightarrow> char \<Rightarrow> DataPoint \<Rightarrow> string" where
  "data_line S delim d =
     put_float S (temperature d) @ [delim] @ put_float S (pressure d) @ [delim] @
     put_long (timestamp d) @ [newline]"

record save_io =
  temp_opens :: bool
  write_fails :: bool
  partial_text :: string
  rename_error :: "string option"

fun save_lines :: "iostream \<Rightarrow> char \<Rightarrow> CircularBuffer \<Rightarrow> nat list \<Rightarrow> exception + string" where
  "save_lines S delim b [] = Inr []"
| "save_lines S delim b (i # is) =
     (case at_cb b i of
        Inl e \<Rightarrow> Inl e
      | Inr d \<Rightarrow>
          (case save_lines S delim b is of
             Inl e \<Rightarrow> Inl e
           | Inr text \<Rightarrow> Inr (data_line S delim d @ text)))"

definition save_data ::
  "iostream \<Rightarrow> int \<Rightarrow> save_io \<Rightarrow> (string \<rightharpoonup> string) \<Rightarrow> BMP280Gui \<Rightarrow>
     exception + BMP280Gui \<times> (string \<rightharpoonup> string)" where
  "save_data S now io files g =
     (let temp_path = ''logs/'' @ filename g @ ''.tmp''
      in if \<not> temp_opens io
         then Inr (add_error now (''Failed to open temp file: '' @ temp_path) False g, files)
         else
           (case save_lines S (csv_delimiter g) (history g) [0..<get_size (history g)] of
              Inl e \<Rightarrow> Inl e
            | Inr text \<Rightarrow>
                if write_fails io
                then Inr (add_error now ''Failed to write data to temp file'' False g,
                          files(temp_path \<mapsto> partial_text io))
                else
                  (case rename_error io of
                     None \<Rightarrow>
                       Inr (add_error now (''Saved to logs/'' @ filename g) False g,
                            (files(temp_path := None))(''logs/'' @ filename g \<mapsto> text))
                   | Some w \<Rightarrow>
                       Inr (add_error now (''Failed to rename temp file: '' @ w) False g,
                            files(temp_path \<mapsto> text)))))"

text \<open>
  The sample a line of the data file stands for, if \<^verbatim>\<open>load_data\<close> accepts it: the line is
  read as number, character, number, character, integer; the character last read is the
  configured delimiter; temperature and pressure lie in \<open>[-40, 85]\<close> and \<open>[300, 1100]\<close>;
  the timestamp is positive and not after the time of loading.
\<close>

definition line_sample :: "iostream \<Rightarrow> char \<Rightarrow> int \<Rightarrow> string \<Rightarrow> DataPoint option" where
  "line_sample S delim now line =
     (case parse_data_line S line of
        Some (t, p, d, ts) \<Rightarrow>
          if d = delim \<and> - 40 \<le> t \<and> t \<le> 85 \<and> 300 \<le> p \<and> p \<le> 1100 \<and> 0 < ts \<and> ts \<le> now
          then Some \<lparr>temperature = t, pressure = p, timestamp = ts\<rparr>
          else None
      | None \<Rightarrow> None)"

definition invalid_line_message :: "string \<Rightarrow> string" where
  "invalid_line_message line = ''Invalid data line: '' @ line"

section \<open>Concrete inputs\<close>

text \<open>Concrete values on which the theorems below are instantiated.\<close>

definition zero_point :: DataPoint where
  "zero_point = \<lparr>temperature = 0, pressure = 0, timestamp = 0\<rparr>"

definition three_points :: "DataPoint list" where
  "three_points =
     [\<lparr>temperature = 20, pressure = 1000, timestamp = 1\<rparr>,
      \<lparr>temperature = 22, pressure = 1001, timestamp = 2\<rparr>,
      \<lparr>temperature = 24, pressure = 1002, timestamp = 3\<rparr>]"

text \<open>
  A model of \<^verbatim>\<open>std::stof\<close> on plain decimal numerals (sign, digits, fraction), used
  where a theorem is instantiated at a concrete input.
\<close>

definition stof_decimal :: "string \<Rightarrow> real option" where
  "stof_decimal s =
     (let neg = (s \<noteq> [] \<and> hd s = CHR ''-'');
          s1 = (if neg then tl s else s);
          ip = takeWhile is_digit s1;
          r1 = dropWhile is_digit s1;
          fp = (if r1 \<noteq> [] \<and> hd r1 = CHR ''.'' then takeWhile is_digit (tl r1) else [])
      in if ip = [] \<and> fp = [] then None
         else Some ((if neg then - 1 else 1) *
                (real_of_int (digits_val ip) + real_of_int (digits_val fp) / 10 ^ length fp)))"

definition example_lib :: stdlib where
  "example_lib = \<lparr>stof = stof_decimal, to_string = (\<lambda>_. ''?'')\<rparr>"

definition example_gui :: BMP280Gui where
  "example_gui =
     \<lparr>fd = 3, history = CircularBuffer_new (\<lambda>_. zero_point), filename = ''data.csv'',
      error_messages = [], persistent_errors = [], last_error_time = 0,
      last_reconnect_attempt = 0, reconnect_attempts = 0,
      temp_range = (- 40, 85), press_range = (300, 1100),
      baud_rate = B9600, csv_delimiter = CHR '','', paused = False, serial_buffer = []\<rparr>"

definition full_gui :: BMP280Gui where
  "full_gui = example_gui\<lparr>serial_buffer := replicate 255 (CHR ''A'')\<rparr>"

definition no_device :: os where
  "no_device = \<lparr>path_exists = (\<lambda>_. False), os_open = (\<lambda>_. - 1),
     tcgetattr_ok = (\<lambda>_. False), tcsetattr_ok = (\<lambda>_ _. False)\<rparr>"

definition device_usb0 :: os where
  "device_usb0 = \<lparr>path_exists = (\<lambda>p. p = ''/dev/ttyUSB0''), os_open = (\<lambda>_. 4),
     tcgetattr_ok = (\<lambda>_. True), tcsetattr_ok = (\<lambda>_ b. b = B115200)\<rparr>"

definition offline_gui :: BMP280Gui where
  "offline_gui = example_gui\<lparr>fd := - 1\<rparr>"

definition cooling_gui :: BMP280Gui where
  "cooling_gui = try_reconnect no_device 5 offline_gui"

text \<open>
  Models of the stream operators on \<^verbatim>\<open>float\<close>, used where a theorem is instantiated at
  a concrete input: \<^verbatim>\<open>operator<<\<close> with the default flags formats as \<^verbatim>\<open>printf\<close>'s
  \<^verbatim>\<open>%g\<close> with precision 6 (six significant digits, rounded to nearest, ties to even;
  fixed notation for decimal exponents from -4 to 5, trailing zeros removed); \<^verbatim>\<open>operator>>\<close>
  reads a decimal numeral with optional fraction and exponent.
\<close>

definition pow10 :: "int \<Rightarrow> real" where
  "pow10 e = (if 0 \<le> e then 10 ^ nat e else 1 / 10 ^ nat (- e))"

fun exp_search :: "nat \<Rightarrow> int \<Rightarrow> real \<Rightarrow> int" where
  "exp_search 0 e a = e"
| "exp_search (Suc n) e a = (if pow10 e \<le> a then e else exp_search n (e - 1) a)"

definition decimal_exponent :: "real \<Rightarrow> int" where
  "decimal_exponent a = exp_search 90 38 a"

definition round_half_even :: "real \<Rightarrow> int" where
  "round_half_even r =
     (if r - of_int \<lfloor>r\<rfloor> < 1 / 2 then \<lfloor>r\<rfloor>
      else if 1 / 2 < r - of_int \<lfloor>r\<rfloor> then \<lfloor>r\<rfloor> + 1
      else if even \<lfloor>r\<rfloor> then \<lfloor>r\<rfloor> else \<lfloor>r\<rfloor> + 1)"

text \<open>
  IEEE 754 single precision on the reals: \<open>fl\<close> rounds to the nearest number with a 24-bit
  significand, ties to even, with the subnormal spacing \<open>2 ^ - 149\<close> below \<open>2 ^ - 126\<close>.
  Results beyond the largest finite \<^verbatim>\<open>float\<close>, infinities and NaN are outside the model;
  sums and means of readings in \<open>[-40, 1100]\<close> do not reach them.
\<close>

definition pow2 :: "int \<Rightarrow> real" where
  "pow2 e = (if 0 \<le> e then 2 ^ nat e else 1 / 2 ^ nat (- e))"

function bit_length :: "int \<Rightarrow> int" where
  "bit_length n = (if n \<le> 0 then 0 else 1 + bit_length (n div 2))"
  by pat_completeness auto
termination
  by (relation "measure nat") auto

text \<open>
  The exponent \<open>e\<close> with \<open>2 ^ e \<le> a < 2 ^ (e + 1)\<close> of a positive \<open>a\<close>, read off the number
  of bits of its integer part, or of its reciprocal; not below the smallest normal exponent.
\<close>

definition binary_exponent :: "real \<Rightarrow> int" where
  "binary_exponent a =
     max (if 1 \<le> a then bit_length \<lfloor>a\<rfloor> - 1 else - bit_length (\<lceil>1 / a\<rceil> - 1)) (- 126)"

definition fl :: "real \<Rightarrow> real" where
  "fl x =
     (if x = 0 then 0
      else of_int (round_half_even (x / pow2 (binary_exponent \<bar>x\<bar> - 23))) *
           pow2 (binary_exponent \<bar>x\<bar> - 23))"

definition ieee_single :: float_ops where
  "ieee_single =
     \<lparr>fadd = (\<lambda>x y. fl (x + y)), fdiv = (\<lambda>x y. fl (x / y)), of_count = (\<lambda>n. fl (of_int n))\<rparr>"

definition four_points :: "DataPoint list" where
  "four_points =
     [\<lparr>temperature = 20, pressure = 1000, timestamp = 1\<rparr>,
      \<lparr>temperature = 22, pressure = 1001, timestamp = 2\<rparr>,
      \<lparr>temperature = 24, pressure = 1002, timestamp = 3\<rparr>,
      \<lparr>temperature = 30, pressure = 1003, timestamp = 4\<rparr>]"

definition strip_zeros :: "string \<Rightarrow> string" where
  "strip_zeros s = rev (dropWhile (\<lambda>c. c = CHR ''0'') (rev s))"

definition fraction_part :: "string \<Rightarrow> string" where
  "fraction_part ds = (if strip_zeros ds = [] then [] else CHR ''.'' # strip_zeros ds)"

definition put_float_g6 :: "real \<Rightarrow> string" where
  "put_float_g6 x =
     (if x = 0 then ''0''
      else
        (let a = \<bar>x\<bar>;
             e0 = decimal_exponent a;
             m0 = round_half_even (a / pow10 (e0 - 5));
             e = (if m0 = 1000000 then e0 + 1 else e0);
             m = (if m0 = 1000000 then 100000 else m0);
             ds = digits_of m;
             sign = (if x < 0 then ''-'' else [])
         in if - 4 \<le> e \<and> e < 6
            then (if 0 \<le> e
                  then sign @ take (nat e + 1) ds @ fraction_part (drop (nat e + 1) ds)
                  else sign @ ''0.'' @ replicate (nat (- e - 1)) (CHR ''0'') @ strip_zeros ds)
            else sign @ [hd ds] @ fraction_part (tl ds) @ ''e'' @
                 (if e < 0 then ''-'' else ''+'') @
                 (if \<bar>e\<bar> < 10 then ''0'' else []) @ digits_of \<bar>e\<bar>))"

definition get_float_dec :: "string \<Rightarrow> (real \<times> string) option" where
  "get_float_dec s =
     (let s0 = dropWhile is_space s;
          neg = (s0 \<noteq> [] \<and> hd s0 = CHR ''-'');
          s1 = (if s0 \<noteq> [] \<and> (hd s0 = CHR ''-'' \<or> hd s0 = CHR ''+'') then tl s0 else s0);
          ip = takeWhile is_digit s1;
          r1 = dropWhile is_digit s1;
          has_point = (r1 \<noteq> [] \<and> hd r1 = CHR ''.'');
          fp = (if has_point then takeWhile is_digit (tl r1) else []);
          r2 = (if has_point then dropWhile is_digit (tl r1) else r1);
          has_exp = (r2 \<noteq> [] \<and> (hd r2 = CHR ''e'' \<or> hd r2 = CHR ''E''));
          r3 = (if has_exp then tl r2 else r2);
          eneg = (r3 \<noteq> [] \<and> hd r3 = CHR ''-'');
          r4 = (if r3 \<noteq> [] \<and> (hd r3 = CHR ''-'' \<or> hd r3 = CHR ''+'') then tl r3 else r3);
          ed = takeWhile is_digit r4;
          mant = real_of_int (digits_val ip) + real_of_int (digits_val fp) / 10 ^ length fp
      in if ip = [] \<and> fp = [] then None
         else if has_exp
         then (if ed = [] then None
               else Some ((if neg then - 1 else 1) * mant *
                            pow10 (if eneg then - digits_val ed else digits_val ed),
                          dropWhile is_digit r4))
         else Some ((if neg then - 1 else 1) * mant, r2))"

definition decimal_stream :: iostream where
  "decimal_stream = \<lparr>put_float = put_float_g6, get_float = get_float_dec\<rparr>"

section \<open>Properties of the history buffer\<close>

subsection \<open>Well-formedness and the logical view\<close>

lemma MAX_POINTS_pos: "0 < MAX_POINTS"
  by (simp add: MAX_POINTS_def)

lemma wf_new: "wf_cb (CircularBuffer_new mem)"
  by (simp add: wf_cb_def CircularBuffer_new_def MAX_POINTS_pos)

lemma wf_push: "wf_cb b \<Longrightarrow> wf_cb (push b x)"
  by (simp add: wf_cb_def push_def MAX_POINTS_pos)

lemma wf_clear: "wf_cb b \<Longrightarrow> wf_cb (clear b)"
  by (simp add: wf_cb_def clear_def MAX_POINTS_pos)

lemma wf_pushes: "wf_cb b \<Longrightarrow> wf_cb (pushes b xs)"
  unfolding pushes_def by (induction xs arbitrary: b) (simp_all add: wf_push)

lemma length_contents: "length (contents b) = size_cb b"
  by (simp add: contents_def)

lemma contents_new: "contents (CircularBuffer_new mem) = []"
  by (simp add: contents_def CircularBuffer_new_def)

lemma contents_clear: "contents (clear b) = []"
  by (simp add: contents_def clear_def)

lemma slot_small:
  assumes "wf_cb b" and "i < size_cb b"
  shows "slot b i = (head b + MAX_POINTS - size_cb b + i) mod MAX_POINTS"
proof -
  from assms have "head b + MAX_POINTS - size_cb b + i < 600"
    unfolding wf_cb_def MAX_POINTS_def by arith
  then have "(head b + MAX_POINTS - size_cb b + i) mod 2 ^ 64 = head b + MAX_POINTS - size_cb b + i"
    by simp
  then show ?thesis by (simp add: slot_def)
qed

lemma at_cb_contents:
  assumes "wf_cb b" and "i < size_cb b"
  shows "at_cb b i = Inr (contents b ! i)"
  using assms by (simp add: at_cb_def slot_small contents_def)

text \<open>Arithmetic of the ring positions.\<close>

lemma ring_step:
  fixes h s i N :: nat
  assumes "s < N"
  shows "((h + 1) mod N + N - (s + 1) + i) mod N = (h + N - s + i) mod N"
proof -
  define d where "d = N - (s + 1) + i"
  have a: "(h + 1) mod N + N - (s + 1) + i = (h + 1) mod N + d"
    using assms unfolding d_def by arith
  have b: "h + N - s + i = (h + 1) + d"
    using assms unfolding d_def by arith
  show ?thesis unfolding a b by (rule mod_add_left_eq)
qed

lemma ring_step_full:
  fixes h i N :: nat
  shows "((h + 1) mod N + N - N + i) mod N = (h + N - N + (i + 1)) mod N"
proof -
  have a: "(h + 1) mod N + N - N + i = (h + 1) mod N + i" by simp
  have b: "h + N - N + (i + 1) = (h + 1) + i" by simp
  show ?thesis unfolding a b by (rule mod_add_left_eq)
qed

lemma ring_hit:
  fixes h s i N :: nat
  assumes "h < N" "s \<le> N" "i < s"
  shows "(h + N - s + i) mod N = h \<longleftrightarrow> s = N \<and> i = 0"
proof (cases "s = N \<and> i = 0")
  case True
  then show ?thesis using assms by simp
next
  case False
  define d where "d = N - s + i"
  have d: "0 < d" "d < N" using assms False unfolding d_def by arith+
  have e: "h + N - s + i = h + d" using assms unfolding d_def by arith
  have "(h + d) mod N \<noteq> h"
  proof (cases "h + d < N")
    case True
    then show ?thesis using d by simp
  next
    case False
    then have "(h + d) mod N = h + d - N" using d assms
      by (simp add: mod_if)
    then show ?thesis using d False by arith
  qed
  then show ?thesis using False unfolding e by simp
qed

text \<open>The effect of \<^verbatim>\<open>push\<close> on the logical view: append, and drop the oldest sample at capacity.\<close>

lemma contents_nth:
  "i < size_cb b \<Longrightarrow>
   contents b ! i = buffer b ! ((head b + MAX_POINTS - size_cb b + i) mod MAX_POINTS)"
  by (simp add: contents_def)

lemma push_sel:
  "buffer (push b x) = (buffer b)[head b := x]"
  "head (push b x) = (head b + 1) mod MAX_POINTS"
  "size_cb (push b x) = (if size_cb b < MAX_POINTS then size_cb b + 1 else size_cb b)"
  "temp_cache (push b x) = map (\<lambda>_. 0) (temp_cache b)"
  "press_cache (push b x) = map (\<lambda>_. 0) (press_cache b)"
  by (simp_all add: push_def)

lemma contents_push_grow:
  assumes "wf_cb b" and "size_cb b < MAX_POINTS"
  shows "contents (push b x) = contents b @ [x]"
proof (rule nth_equalityI)
  show "length (contents (push b x)) = length (contents b @ [x])"
    using assms by (simp add: length_contents push_sel)
next
  fix i assume "i < length (contents (push b x))"
  then have i: "i < size_cb b + 1" using assms by (simp add: length_contents push_sel)
  have len: "length (buffer b) = MAX_POINTS" and h: "head b < MAX_POINTS"
    and s: "size_cb b \<le> MAX_POINTS"
    using assms by (simp_all add: wf_cb_def)
  have sz: "size_cb (push b x) = size_cb b + 1" using assms(2) by (simp add: push_sel)
  have "contents (push b x) ! i =
           (buffer b)[head b := x] ! (((head b + 1) mod MAX_POINTS + MAX_POINTS - (size_cb b + 1) + i) mod MAX_POINTS)"
    using i contents_nth [of i "push b x"] unfolding sz push_sel(1,2) by blast
  then have c: "contents (push b x) ! i =
           (buffer b)[head b := x] ! ((head b + MAX_POINTS - size_cb b + i) mod MAX_POINTS)"
    unfolding ring_step [OF assms(2)] .
  show "contents (push b x) ! i = (contents b @ [x]) ! i"
  proof (cases "i = size_cb b")
    case True
    have "(head b + MAX_POINTS - size_cb b + i) mod MAX_POINTS = head b"
      using True h s by simp
    then show ?thesis unfolding c using True len h by (simp add: nth_append length_contents)
  next
    case False
    with i have i': "i < size_cb b" by simp
    have "(head b + MAX_POINTS - size_cb b + i) mod MAX_POINTS \<noteq> head b"
      using ring_hit [OF h s i'] assms(2) by simp
    then show ?thesis unfolding c using i' by (simp add: nth_append length_contents contents_nth)
  qed
qed

lemma contents_push_full:
  assumes "wf_cb b" and "size_cb b = MAX_POINTS"
  shows "contents (push b x) = tl (contents b) @ [x]"
proof (rule nth_equalityI)
  show "length (contents (push b x)) = length (tl (contents b) @ [x])"
    using assms MAX_POINTS_pos by (simp add: length_contents push_sel)
next
  fix i assume "i < length (contents (push b x))"
  then have i: "i < MAX_POINTS" using assms by (simp add: length_contents push_sel)
  have len: "length (buffer b) = MAX_POINTS" and h: "head b < MAX_POINTS"
    using assms by (simp_all add: wf_cb_def)
  have sz: "size_cb (push b x) = MAX_POINTS" using assms(2) by (simp add: push_sel)
  have "contents (push b x) ! i =
           (buffer b)[head b := x] ! (((head b + 1) mod MAX_POINTS + MAX_POINTS - MAX_POINTS + i) mod MAX_POINTS)"
    using i contents_nth [of i "push b x"] unfolding sz push_sel(1,2) by blast
  then have c: "contents (push b x) ! i =
           (buffer b)[head b := x] ! ((head b + MAX_POINTS - MAX_POINTS + (i + 1)) mod MAX_POINTS)"
    unfolding ring_step_full .
  show "contents (push b x) ! i = (tl (contents b) @ [x]) ! i"
  proof (cases "i + 1 = MAX_POINTS")
    case True
    then have "(head b + MAX_POINTS - MAX_POINTS + (i + 1)) mod MAX_POINTS = head b"
      using h by simp
    then show ?thesis unfolding c using True len h assms(2)
      by (simp add: nth_append length_contents)
  next
    case False
    with i have i': "i + 1 < MAX_POINTS" by simp
    have ne: "(head b + MAX_POINTS - MAX_POINTS + (i + 1)) mod MAX_POINTS \<noteq> head b"
      using ring_hit [of "head b" MAX_POINTS MAX_POINTS "i + 1"] h i' by simp
    have "tl (contents b) ! i = contents b ! (i + 1)"
      using i' assms(2) by (simp add: nth_tl length_contents)
    also have "\<dots> = buffer b ! ((head b + MAX_POINTS - MAX_POINTS + (i + 1)) mod MAX_POINTS)"
      using contents_nth [of "i + 1" b] i' unfolding assms(2) by blast
    finally have t: "tl (contents b) ! i =
        buffer b ! ((head b + MAX_POINTS - MAX_POINTS + (i + 1)) mod MAX_POINTS)" .
    have "(tl (contents b) @ [x]) ! i = tl (contents b) ! i"
      using i' assms(2) by (simp add: nth_append length_contents)
    then show ?thesis unfolding c t using ne by simp
  qed
qed

lemma contents_push:
  assumes "wf_cb b"
  shows "contents (push b x) = drop (length (contents b) + 1 - MAX_POINTS) (contents b @ [x])"
proof (cases "size_cb b < MAX_POINTS")
  case True
  then show ?thesis using contents_push_grow [OF assms True] by (simp add: length_contents)
next
  case False
  then have f: "size_cb b = MAX_POINTS" using assms by (simp add: wf_cb_def)
  then have ne: "contents b \<noteq> []" using MAX_POINTS_pos length_contents [of b] by auto
  have k: "length (contents b) + 1 - MAX_POINTS = 1" by (simp add: length_contents f)
  have "drop 1 (contents b @ [x]) = tl (contents b) @ [x]"
    using ne by (cases "contents b") simp_all
  then show ?thesis unfolding k using contents_push_full [OF assms f] by simp
qed

lemma contents_pushes:
  assumes "wf_cb b"
  shows "contents (pushes b xs) =
         drop (length (contents b) + length xs - MAX_POINTS) (contents b @ xs)"
proof (induction xs rule: rev_induct)
  case Nil
  have "length (contents b) \<le> MAX_POINTS" using assms by (simp add: length_contents wf_cb_def)
  then show ?case by (simp add: pushes_def)
next
  case (snoc x xs)
  define k where "k = length (contents b) + length xs - MAX_POINTS"
  have w: "wf_cb (pushes b xs)" using assms by (rule wf_pushes)
  have p: "pushes b (xs @ [x]) = push (pushes b xs) x" by (simp add: pushes_def)
  have ih: "contents (pushes b xs) = drop k (contents b @ xs)"
    using snoc.IH by (simp add: k_def)
  have step: "contents (pushes b (xs @ [x])) =
              drop (length (drop k (contents b @ xs)) + 1 - MAX_POINTS)
                (drop k (contents b @ xs) @ [x])"
    unfolding p contents_push [OF w] ih ..
  have app: "drop k (contents b @ xs) @ [x] = drop k (contents b @ xs @ [x])"
    by (simp add: k_def)
  show ?case
  proof (cases "length (contents b) + length xs < MAX_POINTS")
    case True
    then have "k = 0" by (simp add: k_def)
    then show ?thesis using True unfolding step by simp
  next
    case False
    then have l: "length (drop k (contents b @ xs)) + 1 - MAX_POINTS = 1"
      by (simp add: k_def)
    have e: "length (contents b) + length (xs @ [x]) - MAX_POINTS = 1 + k"
      using False by (simp add: k_def)
    show ?thesis unfolding step l app e drop_drop ..
  qed
qed

lemma contents_pushes_over:
  assumes "wf_cb b" and "MAX_POINTS \<le> length xs"
  shows "contents (pushes b xs) = drop (length xs - MAX_POINTS) xs"
proof -
  have "length (contents b) + length xs - MAX_POINTS =
        length (contents b) + (length xs - MAX_POINTS)"
    using assms(2) by simp
  then show ?thesis unfolding contents_pushes [OF assms(1)] by simp
qed

lemma size_pushes:
  assumes "wf_cb b"
  shows "size_cb (pushes b xs) = min MAX_POINTS (size_cb b + length xs)"
proof -
  have "size_cb (pushes b xs) = length (contents (pushes b xs))"
    by (simp add: length_contents)
  also have "\<dots> = length (contents b @ xs) - (length (contents b) + length xs - MAX_POINTS)"
    unfolding contents_pushes [OF assms] by (simp only: length_drop)
  also have "\<dots> = min MAX_POINTS (size_cb b + length xs)"
    by (simp add: length_contents min_def)
  finally show ?thesis .
qed

subsection \<open>The smoothing loop\<close>

lemma smooth_loop_fold:
  "0 \<le> i \<Longrightarrow> smooth_loop F b k i hi acc count =
     (foldl (fadd F) acc (map (\<lambda>j. field k (buffer b ! slot b j)) [nat i..<nat (hi + 1)]),
      count + int (length [nat i..<nat (hi + 1)]))"
proof (induction F b k i hi acc count rule: smooth_loop.induct)
  case (1 F b k i hi acc count)
  show ?case
  proof (cases "i \<le> hi")
    case True
    have n: "nat (i + 1) = Suc (nat i)" "nat i < nat (hi + 1)"
      using True "1.prems" by simp_all
    have u: "[nat i..<nat (hi + 1)] = nat i # [nat (i + 1)..<nat (hi + 1)]"
      unfolding n(1) using n(2) by (rule upt_conv_Cons)
    have "smooth_loop F b k i hi acc count =
          smooth_loop F b k (i + 1) hi (fadd F acc (field k (buffer b ! slot b (nat i)))) (count + 1)"
      using True by (subst smooth_loop.simps) simp
    also have "\<dots> = (foldl (fadd F) (fadd F acc (field k (buffer b ! slot b (nat i))))
           (map (\<lambda>j. field k (buffer b ! slot b j)) [nat (i + 1)..<nat (hi + 1)]),
         count + 1 + int (length [nat (i + 1)..<nat (hi + 1)]))"
      using "1.IH" [OF True] "1.prems" by simp
    finally show ?thesis unfolding u by simp
  next
    case False
    then show ?thesis by (subst smooth_loop.simps) simp
  qed
qed

lemma buffer_slot_contents:
  assumes "wf_cb b" and "j < size_cb b"
  shows "buffer b ! slot b j = contents b ! j"
  using assms by (simp add: slot_small contents_nth)

lemma slots_window:
  assumes "wf_cb b" and "hi \<le> size_cb b"
  shows "map (\<lambda>j. field k (buffer b ! slot b j)) [lo..<hi] =
         map (field k) (take (hi - lo) (drop lo (contents b)))"
proof (rule nth_equalityI)
  show "length (map (\<lambda>j. field k (buffer b ! slot b j)) [lo..<hi]) =
        length (map (field k) (take (hi - lo) (drop lo (contents b))))"
    using assms(2) by (simp add: length_contents)
next
  fix n assume "n < length (map (\<lambda>j. field k (buffer b ! slot b j)) [lo..<hi])"
  then have n: "n < hi - lo" by simp
  then have "lo + n < size_cb b" using assms(2) by simp
  then show "map (\<lambda>j. field k (buffer b ! slot b j)) [lo..<hi] ! n =
             map (field k) (take (hi - lo) (drop lo (contents b))) ! n"
    using n assms(2) buffer_slot_contents [OF assms(1), of "lo + n"]
    by (simp add: length_contents)
qed

lemma smooth_loop_window:
  assumes "wf_cb b" and "j < size_cb b"
  shows "smooth_loop F b k (max 0 (int j - w sdiv 2))
           (min (int (size_cb b) - 1) (int j + w sdiv 2)) 0 0
         = (foldl (fadd F) 0 (map (field k) (window (contents b) j w)),
            int (length (window (contents b) j w)))"
proof -
  define lo where "lo = max 0 (int j - w sdiv 2)"
  define hi where "hi = min (int (size_cb b) - 1) (int j + w sdiv 2)"
  have lo0: "0 \<le> lo" by (simp add: lo_def)
  have hs: "nat (hi + 1) \<le> size_cb b" by (simp add: hi_def)
  have d: "nat (hi + 1 - lo) = nat (hi + 1) - nat lo" using lo0 by simp
  have w: "window (contents b) j w = take (nat (hi + 1) - nat lo) (drop (nat lo) (contents b))"
    unfolding window_def Let_def length_contents lo_def [symmetric] hi_def [symmetric] d ..
  have len: "length (take (nat (hi + 1) - nat lo) (drop (nat lo) (contents b))) =
             nat (hi + 1) - nat lo"
    using hs by (simp add: length_contents)
  show ?thesis
    unfolding lo_def [symmetric] hi_def [symmetric] w len
      smooth_loop_fold [OF lo0] slots_window [OF assms(1) hs]
    by simp
qed

lemma set_cache_id: "set_cache b k (cache_of b k) = b"
  by (simp add: set_cache_def cache_of_def)

lemma set_cache_sel:
  "buffer (set_cache b k c) = buffer b"
  "head (set_cache b k c) = head b"
  "size_cb (set_cache b k c) = size_cb b"
  "cache_of (set_cache b k c) k = c"
  "cache_of (set_cache b k c) (\<not> k) = cache_of b (\<not> k)"
  by (simp_all add: set_cache_def cache_of_def)

lemma contents_set_cache: "contents (set_cache b k c) = contents b"
  by (simp add: contents_def set_cache_sel)

lemma wf_set_cache:
  "wf_cb b \<Longrightarrow> length c = length (cache_of b k) \<Longrightarrow> wf_cb (set_cache b k c)"
  by (cases k) (simp_all add: wf_cb_def set_cache_def cache_of_def)

lemma smooth_value_fresh:
  assumes "wf_cb b" and "j < size_cb b" and "cache_of b k ! j = 0"
  shows "smooth_value F b k j w =
         Some (smoothed F (contents b) k j w,
               set_cache b k ((cache_of b k)[j := smoothed F (contents b) k j w]))"
proof -
  have ne: "size_cb b \<noteq> 0" and m: "min j (size_cb b - 1) = j" using assms(2) by simp_all
  have len: "j < length (cache_of b k)"
    using assms(1,2) by (simp add: wf_cb_def cache_of_def)
  have c: "(0 < int (length (window (contents b) j w))) = (window (contents b) j w \<noteq> [])"
    by simp
  have v: "(if 0 < int (length (window (contents b) j w))
            then fdiv F (foldl (fadd F) 0 (map (field k) (window (contents b) j w)))
                   (of_count F (int (length (window (contents b) j w))))
            else field k (buffer b ! slot b j)) = smoothed F (contents b) k j w"
    unfolding c smoothed_def float_mean_def buffer_slot_contents [OF assms(1,2)]
    by simp
  show ?thesis
    using ne len assms(3)
    unfolding smooth_value_def m Let_def cache_of_def [symmetric] set_cache_def [symmetric]
      smooth_loop_window [OF assms(1,2)] prod.case v
    by simp
qed

lemma smooth_value_cached:
  assumes "wf_cb b" and "j < size_cb b" and "cache_of b k ! j \<noteq> 0"
  shows "smooth_value F b k j w = Some (cache_of b k ! j, b)"
proof -
  have ne: "size_cb b \<noteq> 0" and m: "min j (size_cb b - 1) = j" using assms(2) by simp_all
  have len: "j < length (cache_of b k)"
    using assms(1,2) by (simp add: wf_cb_def cache_of_def)
  show ?thesis
    using ne len assms(3)
    unfolding smooth_value_def m Let_def cache_of_def [symmetric]
    by simp
qed

lemma smooth_value_clamp:
  assumes "0 < size_cb b"
  shows "smooth_value F b k i w = smooth_value F b k (min i (size_cb b - 1)) w"
proof -
  have "min (min i (size_cb b - 1)) (size_cb b - 1) = min i (size_cb b - 1)" by simp
  then show ?thesis unfolding smooth_value_def by (simp only:)
qed

lemma smooth_value_empty: "size_cb b = 0 \<Longrightarrow> smooth_value F b k i w = Some (0, b)"
  by (simp add: smooth_value_def)

lemma smooth_value_value:
  assumes "wf_cb b" and "0 < size_cb b"
  shows "map_option fst (smooth_value F b k i w) =
         Some (if cache_of b k ! min i (size_cb b - 1) = 0
               then smoothed F (contents b) k (min i (size_cb b - 1)) w
               else cache_of b k ! min i (size_cb b - 1))"
proof -
  define j where "j = min i (size_cb b - 1)"
  have j: "j < size_cb b" using assms(2) by (simp add: j_def)
  show ?thesis
    unfolding smooth_value_clamp [OF assms(2), of F k i w] j_def [symmetric]
    using smooth_value_fresh [OF assms(1) j, of k F w] smooth_value_cached [OF assms(1) j, of k F w]
    by (cases "cache_of b k ! j = 0") simp_all
qed

lemma smooth_value_shape:
  assumes "wf_cb b"
  shows "\<exists>v c. smooth_value F b k i w = Some (v, set_cache b k c) \<and>
               length c = length (cache_of b k)"
proof (cases "size_cb b = 0")
  case True
  then have "smooth_value F b k i w = Some (0, set_cache b k (cache_of b k))"
    by (simp add: smooth_value_empty set_cache_id)
  then show ?thesis by blast
next
  case False
  then have pos: "0 < size_cb b" by simp
  define j where "j = min i (size_cb b - 1)"
  have j: "j < size_cb b" using pos by (simp add: j_def)
  show ?thesis
  proof (cases "cache_of b k ! j = 0")
    case True
    have "smooth_value F b k i w = Some (smoothed F (contents b) k j w,
               set_cache b k ((cache_of b k)[j := smoothed F (contents b) k j w]))"
      unfolding smooth_value_clamp [OF pos, of F k i w] j_def [symmetric]
      using smooth_value_fresh [OF assms j True] .
    moreover have "length ((cache_of b k)[j := smoothed F (contents b) k j w]) =
                   length (cache_of b k)" by simp
    ultimately show ?thesis by blast
  next
    case nz: False
    have "smooth_value F b k i w = Some (cache_of b k ! j, set_cache b k (cache_of b k))"
      unfolding smooth_value_clamp [OF pos, of F k i w] j_def [symmetric]
      using smooth_value_cached [OF assms j nz] by (simp add: set_cache_id)
    then show ?thesis by blast
  qed
qed

lemma window_nonempty:
  assumes "i < length xs"
  shows "window xs i 5 \<noteq> []"
proof -
  have s: "(5::int) sdiv 2 = 2" by (simp add: signed_divide_int_def)
  define lo where "lo = max 0 (int i - 2)"
  define hi where "hi = min (int (length xs) - 1) (int i + 2)"
  have "lo \<le> int i" "int i \<le> hi" using assms by (simp_all add: lo_def hi_def)
  then have "0 < nat (hi + 1 - lo)" by simp
  moreover have "nat lo < length xs" using assms \<open>lo \<le> int i\<close> by (simp add: lo_def)
  ultimately have "0 < length (take (nat (hi + 1 - lo)) (drop (nat lo) xs))" by simp
  then show ?thesis
    unfolding window_def Let_def s lo_def [symmetric] hi_def [symmetric] by blast
qed

lemma smoothed_5:
  "i < length xs \<Longrightarrow> smoothed F xs k i 5 = float_mean F (map (field k) (window xs i 5))"
  using window_nonempty [of i xs] by (simp add: smoothed_def)

lemma float_mean_exact: "float_mean exact_ops ys = mean ys"
proof -
  have "foldl (+) a ys = a + sum_list ys" for a :: real
    by (induction ys arbitrary: a) simp_all
  then show ?thesis by (simp add: float_mean_def exact_ops_def mean_def)
qed

lemma cache_ok_new: "cache_ok F (CircularBuffer_new mem)"
  by (simp add: cache_ok_def CircularBuffer_new_def)

lemma cache_ok_clear: "cache_ok F (clear b)"
  by (simp add: cache_ok_def clear_def)

lemma cache_ok_push:
  assumes "wf_cb b"
  shows "cache_ok F (push b x)"
proof -
  have "cache_of (push b x) k ! i = 0" if "i < size_cb (push b x)" for k i
  proof -
    have "size_cb (push b x) \<le> MAX_POINTS" using wf_push [OF assms] by (simp add: wf_cb_def)
    then have "i < length (temp_cache b)" "i < length (press_cache b)"
      using that assms by (simp_all add: wf_cb_def)
    then show ?thesis by (simp add: cache_of_def push_sel)
  qed
  then show ?thesis by (simp add: cache_ok_def)
qed

lemma smooth_value_5_any:
  assumes "wf_cb b" and "cache_ok F b" and "0 < size_cb b"
  shows "smooth_value F b k i 5 =
         Some (smoothed F (contents b) k (min i (size_cb b - 1)) 5,
               set_cache b k ((cache_of b k)
                 [min i (size_cb b - 1) := smoothed F (contents b) k (min i (size_cb b - 1)) 5]))"
proof -
  define j where "j = min i (size_cb b - 1)"
  have j: "j < size_cb b" using assms(3) by (simp add: j_def)
  have c: "cache_of b k ! j = 0 \<or> cache_of b k ! j = smoothed F (contents b) k j 5"
    using assms(2) j by (simp add: cache_ok_def)
  show ?thesis
  proof (cases "cache_of b k ! j = 0")
    case True
    show ?thesis
      unfolding smooth_value_clamp [OF assms(3), of F k i 5] j_def [symmetric]
      using smooth_value_fresh [OF assms(1) j True] .
  next
    case False
    then have e: "cache_of b k ! j = smoothed F (contents b) k j 5" using c by simp
    have "(cache_of b k)[j := smoothed F (contents b) k j 5] = cache_of b k"
      using e [symmetric] by (simp only: list_update_id)
    then show ?thesis
      unfolding smooth_value_clamp [OF assms(3), of F k i 5] j_def [symmetric]
      using smooth_value_cached [OF assms(1) j False, of F 5] e by (simp add: set_cache_id)
  qed
qed

lemma inv_smooth:
  assumes "wf_cb b" and "cache_ok F b" and "smooth_value F b k i 5 = Some (v, b')"
  shows "wf_cb b' \<and> cache_ok F b' \<and> contents b' = contents b \<and> size_cb b' = size_cb b"
proof (cases "size_cb b = 0")
  case True
  then have "b' = b" using assms(3) by (simp add: smooth_value_def)
  then show ?thesis using assms by simp
next
  case False
  define j where "j = min i (size_cb b - 1)"
  define m where "m = smoothed F (contents b) k j 5"
  have j: "j < size_cb b" using False by (simp add: j_def)
  have b': "b' = set_cache b k ((cache_of b k)[j := m])"
    using smooth_value_5_any [OF assms(1,2), of k i] False assms(3)
    by (simp add: j_def m_def)
  have w: "wf_cb b'" unfolding b' using assms(1) by (simp add: wf_set_cache)
  have c: "contents b' = contents b" unfolding b' by (rule contents_set_cache)
  have s: "size_cb b' = size_cb b" unfolding b' by (rule set_cache_sel)
  have jl: "j < length (cache_of b k)" using j assms(1) by (simp add: wf_cb_def cache_of_def)
  have "cache_of b' k' ! n = 0 \<or> cache_of b' k' ! n = smoothed F (contents b') k' n 5"
    if "n < size_cb b'" for k' n
  proof -
    have old: "cache_of b k' ! n = 0 \<or> cache_of b k' ! n = smoothed F (contents b) k' n 5"
      using assms(2) that s by (simp add: cache_ok_def)
    show ?thesis
    proof (cases "k' = k")
      case True
      show ?thesis
      proof (cases "n = j")
        case True
        then show ?thesis using \<open>k' = k\<close> jl
          unfolding b' by (simp add: set_cache_sel contents_set_cache m_def)
      next
        case False
        then show ?thesis using \<open>k' = k\<close> old
          unfolding b' by (simp add: set_cache_sel contents_set_cache)
      qed
    next
      case False
      then have "k' = (\<not> k)" by simp
      then show ?thesis using old unfolding b' by (simp add: set_cache_sel contents_set_cache)
    qed
  qed
  then have "cache_ok F b'" by (simp add: cache_ok_def)
  then show ?thesis using w c s by simp
qed

lemma inv_apply_op:
  assumes "wf_cb b" and "cache_ok F b"
  shows "wf_cb (apply_op F b x) \<and> cache_ok F (apply_op F b x)"
proof (cases x)
  case (Push p)
  then show ?thesis using assms by (simp add: wf_push cache_ok_push)
next
  case Clear
  then show ?thesis using assms by (simp add: wf_clear cache_ok_clear)
next
  case (Smooth k i)
  show ?thesis
  proof (cases "smooth_value F b k i 5")
    case None
    then show ?thesis using Smooth assms by simp
  next
    case (Some r)
    obtain v b' where r: "r = (v, b')" by (cases r)
    show ?thesis using inv_smooth [OF assms, of k i v b'] Some Smooth r by simp
  qed
qed

lemma inv_run_ops:
  assumes "wf_cb b" and "cache_ok F b"
  shows "wf_cb (run_ops F b ops) \<and> cache_ok F (run_ops F b ops)"
  using assms unfolding run_ops_def
  by (induction ops arbitrary: b) (simp_all add: inv_apply_op)

lemma window_5_nth:
  assumes "i < length xs"
  shows "window xs i 5 = map (\<lambda>j. xs ! j) [i - 2..<min (length xs) (i + 3)]"
proof -
  have s: "(5::int) sdiv 2 = 2" by (simp add: signed_divide_int_def)
  define lo where "lo = i - 2"
  define hi where "hi = min (length xs) (i + 3)"
  have l: "nat (max 0 (int i - 2)) = lo" by (simp add: lo_def)
  have h: "nat (min (int (length xs) - 1) (int i + 2) + 1 - max 0 (int i - 2)) = hi - lo"
    using assms unfolding lo_def hi_def min_def max_def by (auto; arith)
  have hl: "hi \<le> length xs" by (simp add: hi_def)
  have "take (hi - lo) (drop lo xs) = map (\<lambda>j. xs ! j) [lo..<hi]"
  proof (rule nth_equalityI)
    show "length (take (hi - lo) (drop lo xs)) = length (map (\<lambda>j. xs ! j) [lo..<hi])"
      using hl by simp
  next
    fix n assume "n < length (take (hi - lo) (drop lo xs))"
    then have n: "n < hi - lo" by simp
    then show "take (hi - lo) (drop lo xs) ! n = map (\<lambda>j. xs ! j) [lo..<hi] ! n"
      using hl by simp
  qed
  then show ?thesis
    unfolding window_def Let_def s l h lo_def [symmetric] hi_def [symmetric] .
qed

lemma smooth_value_5_value:
  assumes "wf_cb b" and "cache_ok F b" and "0 < size_cb b"
  shows "map_option fst (smooth_value F b k i 5) =
         Some (float_mean F (map (field k) (window (contents b) (min i (size_cb b - 1)) 5)))"
proof -
  have "min i (size_cb b - 1) < length (contents b)"
    using assms(3) by (simp add: length_contents)
  then show ?thesis
    unfolding smooth_value_5_any [OF assms] by (simp add: smoothed_5)
qed

lemma reachable_inv:
  "wf_cb (run_ops F (CircularBuffer_new mem) ops)"
  "cache_ok F (run_ops F (CircularBuffer_new mem) ops)"
  using inv_run_ops [OF wf_new cache_ok_new, of F mem ops] by simp_all

section \<open>Properties of the serial reader\<close>

lemma add_error_sel:
  "fd (add_error now msg p g) = fd g"
  "history (add_error now msg p g) = history g"
  "serial_buffer (add_error now msg p g) = serial_buffer g"
  "paused (add_error now msg p g) = paused g"
  "reconnect_attempts (add_error now msg p g) = reconnect_attempts g"
  "last_reconnect_attempt (add_error now msg p g) = last_reconnect_attempt g"
  "csv_delimiter (add_error now msg p g) = csv_delimiter g"
  "filename (add_error now msg p g) = filename g"
  by (simp_all add: add_error_def)

lemma process_line_reading:
  "fst (process_line L now line (r, g)) = line_reading L line r"
  by (simp add: process_line_def line_reading_def temperature_of_def pressure_of_def
      split: option.splits)

lemma process_line_keeps:
  "history (snd (process_line L now line (r, g))) = history g"
  "serial_buffer (snd (process_line L now line (r, g))) = serial_buffer g"
  "fd (snd (process_line L now line (r, g))) = fd g"
  by (simp_all add: process_line_def add_error_sel split: option.splits)

lemma lines_loop_split:
  "\<exists>lines rest'.
     rest = concat (map (\<lambda>l. l @ [newline]) lines) @ rest' \<and>
     newline \<notin> set rest' \<and> (\<forall>l\<in>set lines. newline \<notin> set l) \<and>
     lines_loop L now rest rg = (rest', foldl (\<lambda>rg l. process_line L now l rg) rg lines)"
proof (induction L now rest rg rule: lines_loop.induct)
  case (1 L now rest rg)
  show ?case
  proof (cases "newline \<in> set rest")
    case True
    define line where "line = takeWhile (\<lambda>c. c \<noteq> newline) rest"
    define after where "after = tl (dropWhile (\<lambda>c. c \<noteq> newline) rest)"
    have d: "dropWhile (\<lambda>c. c \<noteq> newline) rest \<noteq> []"
      using True by (auto simp: dropWhile_eq_Nil_conv)
    have "hd (dropWhile (\<lambda>c. c \<noteq> newline) rest) = newline"
      using hd_dropWhile [OF d] by simp
    then have dw: "dropWhile (\<lambda>c. c \<noteq> newline) rest = newline # after"
      using d unfolding after_def by (cases "dropWhile (\<lambda>c. c \<noteq> newline) rest") simp_all
    have r: "rest = line @ newline # after"
      using takeWhile_dropWhile_id [of "\<lambda>c. c \<noteq> newline" rest] unfolding line_def dw by simp
    have nl: "newline \<notin> set line"
      unfolding line_def by (auto dest: set_takeWhileD)
    obtain lines rest' where ih:
      "after = concat (map (\<lambda>l. l @ [newline]) lines) @ rest'"
      "newline \<notin> set rest'" "\<forall>l\<in>set lines. newline \<notin> set l"
      "lines_loop L now after (process_line L now line rg) =
         (rest', foldl (\<lambda>rg l. process_line L now l rg) (process_line L now line rg) lines)"
      using "1.IH" [OF True] unfolding line_def after_def by blast
    have "lines_loop L now rest rg = lines_loop L now after (process_line L now line rg)"
      using True by (subst lines_loop.simps) (simp add: line_def after_def)
    then have "lines_loop L now rest rg =
        (rest', foldl (\<lambda>rg l. process_line L now l rg) rg (line # lines))"
      using ih(4) by simp
    moreover have "rest = concat (map (\<lambda>l. l @ [newline]) (line # lines)) @ rest'"
      using r ih(1) by simp
    moreover have "\<forall>l\<in>set (line # lines). newline \<notin> set l" using nl ih(3) by simp
    ultimately show ?thesis using ih(2) by blast
  next
    case False
    then have "lines_loop L now rest rg = (rest, foldl (\<lambda>rg l. process_line L now l rg) rg [])"
      by (subst lines_loop.simps) simp
    then show ?thesis using False by (intro exI [of _ "[]"] exI [of _ rest]) simp
  qed
qed

lemma fold_process_line:
  "fst (foldl (\<lambda>rg l. process_line L now l rg) (r, g) lines) = foldl (\<lambda>r l. line_reading L l r) r lines \<and>
   history (snd (foldl (\<lambda>rg l. process_line L now l rg) (r, g) lines)) = history g \<and>
   serial_buffer (snd (foldl (\<lambda>rg l. process_line L now l rg) (r, g) lines)) = serial_buffer g \<and>
   fd (snd (foldl (\<lambda>rg l. process_line L now l rg) (r, g) lines)) = fd g"
proof (induction lines arbitrary: r g)
  case Nil
  show ?case by simp
next
  case (Cons l lines)
  obtain r1 g1 where p: "process_line L now l (r, g) = (r1, g1)"
    by (cases "process_line L now l (r, g)")
  have "r1 = line_reading L l r" using process_line_reading [of L now l r g] p by simp
  moreover have "history g1 = history g" "serial_buffer g1 = serial_buffer g" "fd g1 = fd g"
    using process_line_keeps [of L now l r g] p by simp_all
  ultimately show ?case using Cons.IH [of r1 g1] p by simp
qed

lemma fold_line_reading:
  "got_temp (foldl (\<lambda>r l. line_reading L l r) r lines) =
     (got_temp r \<or> List.map_filter (temperature_of L) lines \<noteq> []) \<and>
   got_press (foldl (\<lambda>r l. line_reading L l r) r lines) =
     (got_press r \<or> List.map_filter (pressure_of L) lines \<noteq> []) \<and>
   temp (foldl (\<lambda>r l. line_reading L l r) r lines) =
     (if List.map_filter (temperature_of L) lines = [] then temp r
      else last (List.map_filter (temperature_of L) lines)) \<and>
   press (foldl (\<lambda>r l. line_reading L l r) r lines) =
     (if List.map_filter (pressure_of L) lines = [] then press r
      else last (List.map_filter (pressure_of L) lines))"
proof (induction lines rule: rev_induct)
  case Nil
  show ?case by (simp add: List.map_filter_simps)
next
  case (snoc l lines)
  have mf: "List.map_filter f (lines @ [l]) =
            List.map_filter f lines @ (case f l of None \<Rightarrow> [] | Some v \<Rightarrow> [v])"
    for f :: "string \<Rightarrow> real option"
    by (simp add: List.map_filter_def split: option.splits)
  have excl: "temperature_of L l \<noteq> None \<Longrightarrow> pressure_of L l = None"
    by (auto simp: temperature_of_def pressure_of_def split: option.splits if_splits)
  show ?case
    using snoc excl
    by (cases "temperature_of L l"; cases "pressure_of L l")
       (simp_all add: mf line_reading_def)
qed

lemma read_serial_data:
  assumes "fd g \<noteq> - 1" and "\<not> paused g" and "0 < ready"
    and "take (BUFFER_SIZE - length (serial_buffer g) - 1) avail \<noteq> []"
  shows "read_serial L now ready e (Read_gives avail) g =
     (case lines_loop L now
             (serial_buffer g @ take (BUFFER_SIZE - length (serial_buffer g) - 1) avail)
             (\<lparr>temp = 0, press = 0, got_temp = False, got_press = False\<rparr>, g) of
        (rest, r, g1) \<Rightarrow>
          (if got_temp r \<and> got_press r
           then g1\<lparr>history := push (history g1)
                    \<lparr>temperature = temp r, pressure = press r, timestamp = now\<rparr>\<rparr>
           else g1)\<lparr>serial_buffer := rest\<rparr>)"
proof -
  have a: "\<not> (fd g = - 1 \<or> paused g)" "\<not> ready < 0" "ready \<noteq> 0"
    using assms(1,2,3) by simp_all
  show ?thesis
    unfolding read_serial_def Let_def
    by (simp only: a assms(4) if_False read_result.case)
qed

lemma read_serial_gives:
  assumes "fd g \<noteq> - 1" and "\<not> paused g" and "0 < ready"
    and "data = take (BUFFER_SIZE - length (serial_buffer g) - 1) avail" and "data \<noteq> []"
  shows "\<exists>lines rest.
    serial_buffer g @ data = concat (map (\<lambda>l. l @ [newline]) lines) @ rest \<and>
    newline \<notin> set rest \<and> (\<forall>l\<in>set lines. newline \<notin> set l) \<and>
    serial_buffer (read_serial L now ready e (Read_gives avail) g) = rest \<and>
    fd (read_serial L now ready e (Read_gives avail) g) = fd g \<and>
    history (read_serial L now ready e (Read_gives avail) g) =
      (if List.map_filter (temperature_of L) lines \<noteq> [] \<and>
          List.map_filter (pressure_of L) lines \<noteq> []
       then push (history g)
              \<lparr>temperature = last (List.map_filter (temperature_of L) lines),
               pressure = last (List.map_filter (pressure_of L) lines),
               timestamp = now\<rparr>
       else history g)"
proof -
  define r0 where "r0 = \<lparr>temp = 0, press = 0, got_temp = False, got_press = False\<rparr>"
  obtain lines rest where sp:
    "serial_buffer g @ data = concat (map (\<lambda>l. l @ [newline]) lines) @ rest"
    "newline \<notin> set rest" "\<forall>l\<in>set lines. newline \<notin> set l"
    "lines_loop L now (serial_buffer g @ data) (r0, g) =
       (rest, foldl (\<lambda>rg l. process_line L now l rg) (r0, g) lines)"
    using lines_loop_split [of "serial_buffer g @ data" L now "(r0, g)"] by blast
  obtain r g1 where f: "foldl (\<lambda>rg l. process_line L now l rg) (r0, g) lines = (r, g1)"
    by (cases "foldl (\<lambda>rg l. process_line L now l rg) (r0, g) lines")
  have r: "r = foldl (\<lambda>r l. line_reading L l r) r0 lines"
    and g1: "history g1 = history g" "fd g1 = fd g"
    using fold_process_line [of L now r0 g lines] f by simp_all
  have flags: "got_temp r = (List.map_filter (temperature_of L) lines \<noteq> [])"
      "got_press r = (List.map_filter (pressure_of L) lines \<noteq> [])"
      "List.map_filter (temperature_of L) lines \<noteq> [] \<Longrightarrow>
         temp r = last (List.map_filter (temperature_of L) lines)"
      "List.map_filter (pressure_of L) lines \<noteq> [] \<Longrightarrow>
         press r = last (List.map_filter (pressure_of L) lines)"
    using fold_line_reading [of L r0 lines] unfolding r by (simp_all add: r0_def)
  define g' where "g' = read_serial L now ready e (Read_gives avail) g"
  have d: "take (BUFFER_SIZE - length (serial_buffer g) - 1) avail \<noteq> []"
    using assms(4,5) by simp
  have rs: "g' =
      (if got_temp r \<and> got_press r
       then g1\<lparr>history := push (history g1)
                \<lparr>temperature = temp r, pressure = press r, timestamp = now\<rparr>\<rparr>
       else g1)\<lparr>serial_buffer := rest\<rparr>"
    unfolding g'_def read_serial_data [OF assms(1,2,3) d] assms(4) [symmetric]
      r0_def [symmetric] sp(4) f
    by (simp only: prod.case)
  have "serial_buffer g' = rest" unfolding rs by simp
  moreover have "fd g' = fd g" unfolding rs using g1 by simp
  moreover have "history g' =
      (if List.map_filter (temperature_of L) lines \<noteq> [] \<and>
          List.map_filter (pressure_of L) lines \<noteq> []
       then push (history g)
              \<lparr>temperature = last (List.map_filter (temperature_of L) lines),
               pressure = last (List.map_filter (pressure_of L) lines),
               timestamp = now\<rparr>
       else history g)"
    unfolding rs using g1 flags by simp
  ultimately show ?thesis using sp(1,2,3) unfolding g'_def by blast
qed

lemma read_serial_cases:
  "read_serial L now ready e rd g = g \<or>
   (\<exists>msg. read_serial L now ready e rd g = (add_error now msg False g)\<lparr>fd := - 1\<rparr>) \<or>
   (fd g \<noteq> - 1 \<and> \<not> paused g \<and> 0 < ready \<and>
    (\<exists>avail. rd = Read_gives avail \<and>
        take (BUFFER_SIZE - length (serial_buffer g) - 1) avail \<noteq> []))"
proof (cases "fd g = - 1 \<or> paused g")
  case True
  then have "read_serial L now ready e rd g = g"
    unfolding read_serial_def by (simp only: if_True)
  then show ?thesis by blast
next
  case idle: False
  show ?thesis
  proof (cases "ready < 0")
    case True
    then have "read_serial L now ready e rd g =
        (add_error now (''Select error: '' @ e) False g)\<lparr>fd := - 1\<rparr>"
      unfolding read_serial_def using idle by (simp only: if_True if_False)
    then show ?thesis by blast
  next
    case neg: False
    show ?thesis
    proof (cases "ready = 0")
      case True
      then have "read_serial L now ready e rd g = g"
        unfolding read_serial_def using idle neg by (simp only: if_True if_False refl)
      then show ?thesis by blast
    next
      case nz: False
      have rs: "read_serial L now ready e rd g =
        (case rd of
           Read_fails eagain msg \<Rightarrow>
             if \<not> eagain then (add_error now (''Serial read error: '' @ msg) False g)\<lparr>fd := - 1\<rparr>
             else g
         | Read_gives avail \<Rightarrow>
             (let data = take (BUFFER_SIZE - length (serial_buffer g) - 1) avail
              in if data = [] then g
                 else
                   (case lines_loop L now (serial_buffer g @ data)
                           (\<lparr>temp = 0, press = 0, got_temp = False, got_press = False\<rparr>, g) of
                      (rest, r, g1) \<Rightarrow>
                        (if got_temp r \<and> got_press r
                         then g1\<lparr>history := push (history g1)
                                  \<lparr>temperature = temp r, pressure = press r, timestamp = now\<rparr>\<rparr>
                         else g1)\<lparr>serial_buffer := rest\<rparr>)))"
        unfolding read_serial_def using idle neg nz by (simp only: if_False)
      show ?thesis
      proof (cases rd)
        case (Read_fails eagain msg)
        show ?thesis
        proof (cases eagain)
          case True
          then have "read_serial L now ready e rd g = g"
            using rs unfolding Read_fails by (simp only: read_result.case not_True_eq_False if_False)
          then show ?thesis by blast
        next
          case False
          then have "read_serial L now ready e rd g =
              (add_error now (''Serial read error: '' @ msg) False g)\<lparr>fd := - 1\<rparr>"
            using rs unfolding Read_fails by (simp only: read_result.case not_False_eq_True if_True)
          then show ?thesis by blast
        qed
      next
        case (Read_gives avail)
        show ?thesis
        proof (cases "take (BUFFER_SIZE - length (serial_buffer g) - 1) avail = []")
          case True
          then have "read_serial L now ready e rd g = g"
            using rs unfolding Read_gives Let_def by (simp only: read_result.case if_True refl)
          then show ?thesis by blast
        next
          case False
          then show ?thesis using idle neg nz Read_gives by simp
        qed
      qed
    qed
  qed
qed

lemma set_fd_sel:
  "serial_buffer (g\<lparr>fd := x\<rparr>) = serial_buffer g"
  "history (g\<lparr>fd := x\<rparr>) = history g"
  by simp_all

lemma read_serial_bounded:
  assumes "length (serial_buffer g) < BUFFER_SIZE"
  shows "length (serial_buffer (read_serial L now ready e rd g)) < BUFFER_SIZE"
proof -
  consider (same) "read_serial L now ready e rd g = g"
    | (err) msg where "read_serial L now ready e rd g = (add_error now msg False g)\<lparr>fd := - 1\<rparr>"
    | (data) avail where "fd g \<noteq> - 1" "\<not> paused g" "0 < ready" "rd = Read_gives avail"
        "take (BUFFER_SIZE - length (serial_buffer g) - 1) avail \<noteq> []"
    using read_serial_cases [of L now ready e rd g] by blast
  then show ?thesis
  proof cases
    case same
    then show ?thesis using assms by simp
  next
    case err
    show ?thesis unfolding err set_fd_sel add_error_sel using assms .
  next
    case data
    obtain lines rest where
      sp: "serial_buffer g @ take (BUFFER_SIZE - length (serial_buffer g) - 1) avail =
           concat (map (\<lambda>l. l @ [newline]) lines) @ rest"
      and sb: "serial_buffer (read_serial L now ready e (Read_gives avail) g) = rest"
      using read_serial_gives [OF data(1,2,3) refl data(5), of L now e] by blast
    have "length rest \<le> length (serial_buffer g @ take (BUFFER_SIZE - length (serial_buffer g) - 1) avail)"
      unfolding sp by simp
    also have "\<dots> \<le> length (serial_buffer g) + (BUFFER_SIZE - length (serial_buffer g) - 1)"
      by simp
    also have "\<dots> < BUFFER_SIZE" using assms by simp
    finally show ?thesis unfolding data(4) sb .
  qed
qed

lemma read_serial_full:
  assumes "length (serial_buffer g) = BUFFER_SIZE - 1"
  shows "0 \<le> ready \<Longrightarrow> read_serial L now ready e (Read_gives avail) g = g"
    and "serial_buffer (read_serial L now ready e rd g) = serial_buffer g"
    and "history (read_serial L now ready e rd g) = history g"
proof -
  have t: "take (BUFFER_SIZE - length (serial_buffer g) - 1) avail = []" for avail :: string
    using assms by simp
  consider (same) "read_serial L now ready e rd g = g"
    | (err) msg where "read_serial L now ready e rd g = (add_error now msg False g)\<lparr>fd := - 1\<rparr>"
    using read_serial_cases [of L now ready e rd g] t by blast
  then show "serial_buffer (read_serial L now ready e rd g) = serial_buffer g"
    by cases (simp_all only: set_fd_sel add_error_sel)
  consider (same) "read_serial L now ready e rd g = g"
    | (err) msg where "read_serial L now ready e rd g = (add_error now msg False g)\<lparr>fd := - 1\<rparr>"
    using read_serial_cases [of L now ready e rd g] t by blast
  then show "history (read_serial L now ready e rd g) = history g"
    by cases (simp_all only: set_fd_sel add_error_sel)
  show "read_serial L now ready e (Read_gives avail) g = g" if "0 \<le> ready"
  proof (cases "fd g = - 1 \<or> paused g")
    case True
    then show ?thesis unfolding read_serial_def by (simp only: if_True)
  next
    case False
    have n: "\<not> ready < 0" using that by simp
    show ?thesis
      unfolding read_serial_def Let_def
      using False n by (simp only: if_False if_True read_result.case t if_cancel refl)
  qed
qed

lemma read_serial_run_full:
  assumes "length (serial_buffer g) = BUFFER_SIZE - 1"
  shows "serial_buffer (read_serial_run L g evs) = serial_buffer g \<and>
         history (read_serial_run L g evs) = history g"
proof (induction evs rule: rev_induct)
  case Nil
  show ?case by (simp add: read_serial_run_def)
next
  case (snoc ev evs)
  obtain now ready e rd where ev: "ev = (now, ready, e, rd)" by (cases ev)
  have st: "read_serial_run L g (evs @ [ev]) = read_serial L now ready e rd (read_serial_run L g evs)"
    by (simp add: read_serial_run_def ev)
  have l: "length (serial_buffer (read_serial_run L g evs)) = BUFFER_SIZE - 1"
    using snoc assms by simp
  show ?case unfolding st using read_serial_full(2,3) [OF l] snoc by simp
qed

lemma read_serial_run_bounded:
  assumes "length (serial_buffer g) < BUFFER_SIZE"
  shows "length (serial_buffer (read_serial_run L g evs)) < BUFFER_SIZE"
proof (induction evs rule: rev_induct)
  case Nil
  show ?case using assms by (simp add: read_serial_run_def)
next
  case (snoc ev evs)
  obtain now ready e rd where ev: "ev = (now, ready, e, rd)" by (cases ev)
  have st: "read_serial_run L g (evs @ [ev]) = read_serial L now ready e rd (read_serial_run L g evs)"
    by (simp add: read_serial_run_def ev)
  show ?case unfolding st using snoc by (rule read_serial_bounded)
qed

section \<open>Properties of the reconnection policy\<close>

lemma open_serial_cases:
  "(\<exists>f. open_serial sys now port baud g = (g\<lparr>fd := f\<rparr>, True) \<and> f \<noteq> - 1) \<or>
   (\<exists>m. open_serial sys now port baud g = ((add_error now m True g)\<lparr>fd := - 1\<rparr>, False))"
proof (cases "SerialPort_new sys port baud")
  case (Inl e)
  then have "open_serial sys now port baud g =
      ((add_error now (what e) True g)\<lparr>fd := - 1\<rparr>, False)"
    by (simp add: open_serial_def)
  then show ?thesis by blast
next
  case (Inr f)
  then have "f \<noteq> - 1" by (auto simp: SerialPort_new_def Let_def split: if_splits)
  moreover have "open_serial sys now port baud g = (g\<lparr>fd := f\<rparr>, True)"
    using Inr by (simp add: open_serial_def)
  ultimately show ?thesis by blast
qed

lemma reconnect_bauds_result:
  assumes "fd g = - 1"
  shows "last_reconnect_attempt (reconnect_bauds sys now port bauds g) = last_reconnect_attempt g \<and>
   (fd (reconnect_bauds sys now port bauds g) \<noteq> - 1 \<longrightarrow>
      reconnect_attempts (reconnect_bauds sys now port bauds g) = 0 \<and>
      error_messages (reconnect_bauds sys now port bauds g) = [] \<and>
      persistent_errors (reconnect_bauds sys now port bauds g) = []) \<and>
   (fd (reconnect_bauds sys now port bauds g) = - 1 \<longrightarrow>
      reconnect_attempts (reconnect_bauds sys now port bauds g) = reconnect_attempts g)"
  using assms
proof (induction bauds arbitrary: g)
  case Nil
  then show ?case by (simp add: add_error_sel)
next
  case (Cons baud bauds)
  consider (ok) f where "open_serial sys now port baud g = (g\<lparr>fd := f\<rparr>, True)" "f \<noteq> - 1"
    | (fail) m where "open_serial sys now port baud g = ((add_error now m True g)\<lparr>fd := - 1\<rparr>, False)"
    using open_serial_cases [of sys now port baud g] by blast
  then show ?case
  proof cases
    case ok
    then show ?thesis by simp
  next
    case fail
    define g1 where "g1 = (add_error now m True g)\<lparr>fd := - 1\<rparr>"
    have g1: "fd g1 = - 1" "last_reconnect_attempt g1 = last_reconnect_attempt g"
      "reconnect_attempts g1 = reconnect_attempts g"
      by (simp_all add: g1_def add_error_sel)
    have r: "reconnect_bauds sys now port (baud # bauds) g = reconnect_bauds sys now port bauds g1"
      using fail by (simp add: g1_def)
    show ?thesis unfolding r using Cons.IH [OF g1(1)] g1(2,3) by simp
  qed
qed

lemma try_reconnect_skip:
  "\<not> attempt_made g now \<Longrightarrow> try_reconnect sys now g = g"
  unfolding attempt_made_def try_reconnect_def by (simp only: simp_thms if_True if_False split: if_splits) auto

lemma try_reconnect_attempt:
  assumes "attempt_made g now"
  shows "last_reconnect_attempt (try_reconnect sys now g) = now \<and>
   (fd (try_reconnect sys now g) \<noteq> - 1 \<longrightarrow>
      reconnect_attempts (try_reconnect sys now g) = 0 \<and>
      error_messages (try_reconnect sys now g) = [] \<and>
      persistent_errors (try_reconnect sys now g) = []) \<and>
   (fd (try_reconnect sys now g) = - 1 \<longrightarrow>
      reconnect_attempts (try_reconnect sys now g) = reconnect_attempts g + 1)"
proof -
  define g1 where "g1 = g\<lparr>last_reconnect_attempt := now,
                    reconnect_attempts := reconnect_attempts g + 1\<rparr>"
  have a: "\<not> (fd g \<noteq> - 1 \<or> reconnect_attempts g \<ge> max_reconnect_attempts)"
    "\<not> now - last_reconnect_attempt g < RECONNECT_TIMEOUT"
    using assms by (simp_all add: attempt_made_def)
  have g1: "fd g1 = - 1" "last_reconnect_attempt g1 = now"
    "reconnect_attempts g1 = reconnect_attempts g + 1"
    using a(1) by (simp_all add: g1_def)
  have t: "try_reconnect sys now g =
      (case find_serial_port sys of
              None \<Rightarrow> add_error now ''No serial port available'' True g1
            | Some port \<Rightarrow> reconnect_bauds sys now port [B9600, B115200] g1)"
    unfolding try_reconnect_def Let_def g1_def [symmetric] using a by (simp only: if_False)
  show ?thesis
  proof (cases "find_serial_port sys")
    case None
    then show ?thesis unfolding t using g1 by (simp add: add_error_sel)
  next
    case (Some port)
    show ?thesis unfolding t Some option.case
      using reconnect_bauds_result [OF g1(1), of sys now port "[B9600, B115200]"] g1(2,3)
      by simp
  qed
qed

lemma exec_other_sel:
  "last_reconnect_attempt (exec_step g (Other g')) = last_reconnect_attempt g"
  "reconnect_attempts (exec_step g (Other g')) = reconnect_attempts g"
  by simp_all

lemma attempts_spaced:
  "spaced (last_reconnect_attempt g) (attempts g steps)"
proof (induction steps arbitrary: g)
  case Nil
  show ?case by simp
next
  case (Cons s steps)
  show ?case
  proof (cases s)
    case (Reconnect sys now)
    show ?thesis
    proof (cases "attempt_made g now")
      case True
      have "RECONNECT_TIMEOUT \<le> now - last_reconnect_attempt g"
        using True by (simp add: attempt_made_def)
      moreover have "spaced now (attempts (try_reconnect sys now g) steps)"
        using Cons.IH [of "try_reconnect sys now g"] try_reconnect_attempt [OF True, of sys]
        by simp
      ultimately show ?thesis using True Reconnect by simp
    next
      case False
      then show ?thesis using Reconnect Cons.IH [of g] try_reconnect_skip [OF False, of sys]
        by simp
    qed
  next
    case (Other g')
    show ?thesis unfolding Other attempts.simps
      using Cons.IH [of "exec_step g (Other g')"] unfolding exec_other_sel .
  qed
qed

lemma attempts_exhausted:
  assumes "n \<le> length (attempts g steps)"
    and "\<forall>j<n. \<not> snd (attempts g steps ! j)"
    and "max_reconnect_attempts \<le> reconnect_attempts g + int n"
  shows "length (attempts g steps) = n"
  using assms
proof (induction steps arbitrary: g n)
  case Nil
  then show ?case by simp
next
  case (Cons s steps)
  show ?case
  proof (cases s)
    case (Reconnect sys now)
    show ?thesis
    proof (cases "attempt_made g now")
      case made: True
      define g1 where "g1 = try_reconnect sys now g"
      have ts: "attempts g (s # steps) = (now, fd g1 \<noteq> - 1) # attempts g1 steps"
        using made Reconnect by (simp add: g1_def)
      have lt: "reconnect_attempts g < max_reconnect_attempts"
        using made by (simp add: attempt_made_def)
      show ?thesis
      proof (cases n)
        case 0
        then show ?thesis using Cons.prems(3) lt by simp
      next
        case (Suc m)
        have "\<not> snd (attempts g (s # steps) ! 0)" using Cons.prems(2) Suc by blast
        then have f: "fd g1 = - 1" unfolding ts by simp
        then have ra: "reconnect_attempts g1 = reconnect_attempts g + 1"
          using try_reconnect_attempt [OF made, of sys] by (simp add: g1_def)
        have 1: "m \<le> length (attempts g1 steps)" using Cons.prems(1) Suc unfolding ts by simp
        have 2: "\<forall>j<m. \<not> snd (attempts g1 steps ! j)"
        proof (intro allI impI)
          fix j assume "j < m"
          then have "\<not> snd (attempts g (s # steps) ! Suc j)" using Cons.prems(2) Suc by simp
          then show "\<not> snd (attempts g1 steps ! j)" unfolding ts by simp
        qed
        have 3: "max_reconnect_attempts \<le> reconnect_attempts g1 + int m"
          using Cons.prems(3) Suc ra by simp
        show ?thesis unfolding ts using Cons.IH [OF 1 2 3] Suc by simp
      qed
    next
      case False
      have ts: "attempts g (s # steps) = attempts g steps"
        using False Reconnect try_reconnect_skip [OF False, of sys] by simp
      show ?thesis using Cons.IH [of n g] Cons.prems unfolding ts by simp
    qed
  next
    case (Other g')
    have ts: "attempts g (s # steps) = attempts (exec_step g (Other g')) steps"
      using Other by simp
    show ?thesis
      using Cons.IH [of n "exec_step g (Other g')"] Cons.prems unfolding ts exec_other_sel by simp
  qed
qed

lemma attempts_suffix:
  assumes "0 \<le> reconnect_attempts g"
  shows "\<exists>g' steps'. 0 \<le> reconnect_attempts g' \<and>
           drop k (attempts g steps) = attempts g' steps'"
  using assms
proof (induction steps arbitrary: g k)
  case Nil
  then show ?case by (intro exI [of _ g] exI [of _ "[]"]) simp
next
  case (Cons s steps)
  show ?case
  proof (cases s)
    case (Reconnect sys now)
    show ?thesis
    proof (cases "attempt_made g now")
      case made: True
      define g1 where "g1 = try_reconnect sys now g"
      have ts: "attempts g (s # steps) = (now, fd g1 \<noteq> - 1) # attempts g1 steps"
        using made Reconnect by (simp add: g1_def)
      have ra: "0 \<le> reconnect_attempts g1"
        using try_reconnect_attempt [OF made, of sys] Cons.prems
        by (cases "fd g1 = - 1") (simp_all add: g1_def)
      show ?thesis
      proof (cases k)
        case 0
        then show ?thesis using Cons.prems by (intro exI [of _ g] exI [of _ "s # steps"]) simp
      next
        case (Suc m)
        then show ?thesis unfolding ts using Cons.IH [OF ra, of m] by simp
      qed
    next
      case False
      have ts: "attempts g (s # steps) = attempts g steps"
        using False Reconnect try_reconnect_skip [OF False, of sys] by simp
      show ?thesis unfolding ts using Cons.IH [OF Cons.prems] .
    qed
  next
    case (Other g')
    have ts: "attempts g (s # steps) = attempts (exec_step g (Other g')) steps"
      using Other by simp
    have "0 \<le> reconnect_attempts (exec_step g (Other g'))"
      unfolding exec_other_sel using Cons.prems .
    then show ?thesis unfolding ts by (rule Cons.IH)
  qed
qed

lemma try_reconnect_changes:
  "attempt_made g now \<longleftrightarrow> try_reconnect sys now g \<noteq> g"
proof
  assume a: "attempt_made g now"
  have "last_reconnect_attempt (try_reconnect sys now g) = now"
    using try_reconnect_attempt [OF a, of sys] by simp
  moreover have "last_reconnect_attempt g \<noteq> now"
    using a by (auto simp: attempt_made_def RECONNECT_TIMEOUT_def)
  ultimately show "try_reconnect sys now g \<noteq> g" by auto
next
  assume "try_reconnect sys now g \<noteq> g"
  then show "attempt_made g now" using try_reconnect_skip [of g now sys] by blast
qed

lemma attempts_state_changes: "attempts g steps = state_changes g steps"
proof (induction steps arbitrary: g)
  case Nil
  show ?case by simp
next
  case (Cons s steps)
  show ?case
  proof (cases s)
    case (Reconnect sys now)
    show ?thesis
      unfolding Reconnect attempts.simps state_changes.simps
        try_reconnect_changes [of g now sys] Cons.IH ..
  next
    case (Other g')
    show ?thesis unfolding Other attempts.simps state_changes.simps Cons.IH ..
  qed
qed

section \<open>Properties of the program's exit\<close>

lemma main_loop_throws: "main_loop ticks \<noteq> Some (Inr u)"
  by (induction ticks) (auto split: sum.splits)

lemma main_never_exits_0: "main display_opens startup ticks \<noteq> Some 0"
  using main_loop_throws [of ticks]
  by (auto simp: main_def run_def BMP280Gui_new_def split: option.splits sum.splits)

lemma main_no_display: "main False startup ticks = Some 1"
  by (simp add: main_def BMP280Gui_new_def)

subsection \<open>C1: the oldest retained sample\<close>

text \<open>
  C1.  After a sequence of pushes \<open>xs\<close> that is longer than the capacity, into the freshly
  constructed buffer or any other well-formed one, \<^verbatim>\<open>get_size()\<close> is \<^verbatim>\<open>MAX_POINTS\<close>
  and, for every logical index \<open>i\<close> below the capacity, \<^verbatim>\<open>operator[]\<close> returns the pushed
  sample number \<open>length xs - MAX_POINTS + i\<close> (counting from 0); index 0 is the oldest
  retained sample.
\<close>

theorem push_oldest_retained:
  assumes "wf_cb b" and "MAX_POINTS < length xs"
  shows "get_size (pushes b xs) = MAX_POINTS \<and>
         (\<forall>i<MAX_POINTS. at_cb (pushes b xs) i = Inr (xs ! (length xs - MAX_POINTS + i)))"
proof -
  have w: "wf_cb (pushes b xs)" using assms(1) by (rule wf_pushes)
  have le: "MAX_POINTS \<le> length xs" using assms(2) by simp
  have sz: "size_cb (pushes b xs) = MAX_POINTS"
    using size_pushes [OF assms(1), of xs] le by (simp add: min_def)
  have "at_cb (pushes b xs) i = Inr (xs ! (length xs - MAX_POINTS + i))" if "i < MAX_POINTS" for i
  proof -
    have "at_cb (pushes b xs) i = Inr (contents (pushes b xs) ! i)"
      using w that sz by (simp add: at_cb_contents)
    also have "contents (pushes b xs) ! i = xs ! (length xs - MAX_POINTS + i)"
      unfolding contents_pushes_over [OF assms(1) le] using that le by simp
    finally show ?thesis .
  qed
  then show ?thesis using sz by (simp add: get_size_def)
qed

theorem push_oldest_retained_witness:
  "wf_cb (CircularBuffer_new (\<lambda>_. \<lparr>temperature = 0, pressure = 0, timestamp = 0\<rparr>)) \<and>
   MAX_POINTS < length (map (\<lambda>k. \<lparr>temperature = 20, pressure = 1000, timestamp = int k\<rparr>) [0..<301]) \<and>
   get_size (pushes (CircularBuffer_new (\<lambda>_. \<lparr>temperature = 0, pressure = 0, timestamp = 0\<rparr>))
     (map (\<lambda>k. \<lparr>temperature = 20, pressure = 1000, timestamp = int k\<rparr>) [0..<301])) = MAX_POINTS \<and>
   at_cb (pushes (CircularBuffer_new (\<lambda>_. \<lparr>temperature = 0, pressure = 0, timestamp = 0\<rparr>))
     (map (\<lambda>k. \<lparr>temperature = 20, pressure = 1000, timestamp = int k\<rparr>) [0..<301])) 0
     = Inr \<lparr>temperature = 20, pressure = 1000, timestamp = 1\<rparr>"
proof -
  have l: "MAX_POINTS < length (map (\<lambda>k. \<lparr>temperature = 20, pressure = 1000, timestamp = int k\<rparr>) [0..<301])"
    by (simp add: MAX_POINTS_def)
  show ?thesis
    using push_oldest_retained [OF wf_new l, of "\<lambda>_. \<lparr>temperature = 0, pressure = 0, timestamp = 0\<rparr>"] l
    by (simp add: wf_new MAX_POINTS_def)
qed

subsection \<open>C3: the smoothed value and the mean over the clipped window\<close>

text \<open>
  In IEEE single precision, the buffer 20, 22, 24, 30 gives at index 3 the window 22, 24, 30,
  whose sum 76 is exact and whose quotient by 3 is rounded: the call returns
  \<open>13281963 / 524288\<close>, not the arithmetic mean \<open>76 / 3\<close>.
\<close>

theorem smooth_value_rounds:
  "map_option fst (smooth_value ieee_single
       (run_ops ieee_single (CircularBuffer_new (\<lambda>_. zero_point)) (map Push four_points)) True 3 5)
     = Some (13281963 / 524288) \<and>
   mean (map (field True) (window (contents
       (run_ops ieee_single (CircularBuffer_new (\<lambda>_. zero_point)) (map Push four_points))) 3 5))
     = 76 / 3"
proof -
  have s: "0 < size_cb (run_ops ieee_single (CircularBuffer_new (\<lambda>_. zero_point))
      (map Push four_points))"
    by (simp add: run_ops_def four_points_def push_def CircularBuffer_new_def MAX_POINTS_def)
  have m: "min 3 (size_cb (run_ops ieee_single (CircularBuffer_new (\<lambda>_. zero_point))
      (map Push four_points)) - 1) = 3"
    by (simp add: run_ops_def four_points_def push_def CircularBuffer_new_def MAX_POINTS_def)
  have v: "float_mean ieee_single (map (field True) (window (contents
       (run_ops ieee_single (CircularBuffer_new (\<lambda>_. zero_point)) (map Push four_points))) 3 5))
     = 13281963 / 524288"
    by code_simp
  have e: "mean (map (field True) (window (contents
       (run_ops ieee_single (CircularBuffer_new (\<lambda>_. zero_point)) (map Push four_points))) 3 5))
     = 76 / 3"
    by code_simp
  show ?thesis
    using smooth_value_5_value [OF reachable_inv s, of True 3] e unfolding m v by simp
qed

text \<open>
  C3, as the code has it.  Let \<open>b\<close> be any state the class reaches from its constructor by
  \<^verbatim>\<open>push\<close>, \<^verbatim>\<open>clear\<close> and \<^verbatim>\<open>smooth_value\<close> with the window 5, and let \<open>i\<close> be a
  logical index below \<^verbatim>\<open>get_size()\<close>.  Then \<^verbatim>\<open>smooth_value(kind, i, 5)\<close> returns the mean
  of the requested field over the retained samples at the logical positions \<open>max 0 (i - 2)\<close>
  to \<open>min (size - 1) (i + 2)\<close> as \<^verbatim>\<open>float\<close> arithmetic computes it: the values are added
  from the left, starting at \<^verbatim>\<open>0.0f\<close>, and the sum is divided by their number, each operation
  rounding.  Where the arithmetic does not round, this is the arithmetic mean.  The call
  leaves the retained samples as they are; and after a following \<^verbatim>\<open>push\<close>, which empties
  the caches, it returns the value of the same formula over the updated contents, for either
  field and every index below the new size.
\<close>

theorem smooth_value_is_float_mean:
  assumes "b = run_ops F (CircularBuffer_new mem) ops" and "i < get_size b"
  shows "\<exists>b'. smooth_value F b is_temp i 5 =
                Some (float_mean F (map (field is_temp) (window (contents b) i 5)), b') \<and>
              window (contents b) i 5 =
                map (\<lambda>j. contents b ! j) [i - 2..<min (get_size b) (i + 3)] \<and>
              float_mean exact_ops (map (field is_temp) (window (contents b) i 5)) =
                mean (map (field is_temp) (window (contents b) i 5)) \<and>
              contents b' = contents b \<and>
              (\<forall>p k j. j < get_size (push b' p) \<longrightarrow>
                 contents (push b' p) =
                   drop (length (contents b) + 1 - MAX_POINTS) (contents b @ [p]) \<and>
                 (\<exists>b''. smooth_value F (push b' p) k j 5 =
                         Some (float_mean F (map (field k) (window (contents (push b' p)) j 5)),
                               b'')))"
proof -
  have inv: "wf_cb b" "cache_ok F b"
    using reachable_inv [of F mem ops] assms(1) by simp_all
  have pos: "0 < size_cb b" and m: "min i (size_cb b - 1) = i"
    and il: "i < length (contents b)"
    using assms(2) by (simp_all add: get_size_def length_contents)
  define b' where "b' = set_cache b is_temp
     ((cache_of b is_temp)[i := smoothed F (contents b) is_temp i 5])"
  have sv: "smooth_value F b is_temp i 5 =
      Some (float_mean F (map (field is_temp) (window (contents b) i 5)), b')"
    using smooth_value_5_any [OF inv pos, of is_temp i] unfolding m b'_def
    by (simp add: smoothed_5 [OF il])
  have inv': "wf_cb b'" "contents b' = contents b"
    using inv_smooth [OF inv sv] by simp_all
  have win: "window (contents b) i 5 =
      map (\<lambda>j. contents b ! j) [i - 2..<min (get_size b) (i + 3)]"
    using window_5_nth [OF il] by (simp add: get_size_def length_contents)
  have after: "contents (push b' p) =
                   drop (length (contents b) + 1 - MAX_POINTS) (contents b @ [p]) \<and>
        (\<exists>b''. smooth_value F (push b' p) k j 5 =
                  Some (float_mean F (map (field k) (window (contents (push b' p)) j 5)), b''))"
    if "j < get_size (push b' p)" for p k j
  proof -
    have w: "wf_cb (push b' p)" using inv'(1) by (rule wf_push)
    have c: "cache_ok F (push b' p)" using inv'(1) by (rule cache_ok_push)
    have pos': "0 < size_cb (push b' p)" and m': "min j (size_cb (push b' p) - 1) = j"
      and jl: "j < length (contents (push b' p))"
      using that by (simp_all add: get_size_def length_contents)
    have "smooth_value F (push b' p) k j 5 =
        Some (float_mean F (map (field k) (window (contents (push b' p)) j 5)),
              set_cache (push b' p) k ((cache_of (push b' p) k)
                [j := smoothed F (contents (push b' p)) k j 5]))"
      using smooth_value_5_any [OF w c pos', of k j] unfolding m'
      by (simp add: smoothed_5 [OF jl])
    then show ?thesis using contents_push [OF inv'(1), of p] unfolding inv'(2) by blast
  qed
  show ?thesis using sv inv'(2) win after float_mean_exact by blast
qed

theorem smooth_value_is_float_mean_witness:
  "3 < get_size (run_ops ieee_single (CircularBuffer_new (\<lambda>_. zero_point)) (map Push four_points)) \<and>
   (\<exists>b'. smooth_value ieee_single
            (run_ops ieee_single (CircularBuffer_new (\<lambda>_. zero_point)) (map Push four_points))
            True 3 5 = Some (13281963 / 524288, b'))"
proof -
  have g: "3 < get_size (run_ops ieee_single (CircularBuffer_new (\<lambda>_. zero_point))
      (map Push four_points))"
    by (simp add: get_size_def run_ops_def four_points_def push_def CircularBuffer_new_def
        MAX_POINTS_def)
  have v: "float_mean ieee_single (map (field True) (window (contents
       (run_ops ieee_single (CircularBuffer_new (\<lambda>_. zero_point)) (map Push four_points))) 3 5))
     = 13281963 / 524288"
    by code_simp
  show ?thesis
    using smooth_value_is_float_mean [OF refl g, of True] g unfolding v by blast
qed

subsection \<open>C10: the smoothing accessor never fails\<close>

text \<open>
  C10.  On every well-formed buffer, for every index and every window, \<^verbatim>\<open>smooth_value\<close>
  returns a value (no access leaves the cache vector).  On an empty buffer it returns
  \<^verbatim>\<open>0.0f\<close> and changes nothing.  On a non-empty buffer the index is clamped to
  \<open>get_size() - 1\<close>: the call is the call at the clamped index, and its value is the cache
  entry there when that is not \<^verbatim>\<open>0.0f\<close>, and otherwise the smoothed value of the sample
  at the clamped index, computed over its window.  So in every state the class reaches with the
  window 5, an index at or beyond \<^verbatim>\<open>get_size()\<close> yields the smoothed value of the newest
  retained sample, the mean over its clipped window in \<^verbatim>\<open>float\<close> arithmetic.
\<close>

theorem smooth_value_never_fails:
  assumes "wf_cb b"
  shows "(\<exists>v b'. smooth_value F b is_temp index w = Some (v, b')) \<and>
         (get_size b = 0 \<longrightarrow> smooth_value F b is_temp index w = Some (0, b)) \<and>
         (0 < get_size b \<and> get_size b \<le> index \<longrightarrow>
            smooth_value F b is_temp index w =
            smooth_value F b is_temp (get_size b - 1) w) \<and>
         (0 < get_size b \<longrightarrow>
            smooth_value F b is_temp index w =
              smooth_value F b is_temp (min index (get_size b - 1)) w \<and>
            map_option fst (smooth_value F b is_temp index w) =
              Some (if cache_of b is_temp ! min index (get_size b - 1) = 0
                    then smoothed F (contents b) is_temp (min index (get_size b - 1)) w
                    else cache_of b is_temp ! min index (get_size b - 1))) \<and>
         (b = run_ops F (CircularBuffer_new mem) ops \<and> 0 < get_size b \<and> get_size b \<le> index \<longrightarrow>
            map_option fst (smooth_value F b is_temp index 5) =
              Some (float_mean F
                      (map (field is_temp) (window (contents b) (get_size b - 1) 5))))"
proof -
  have 1: "\<exists>v b'. smooth_value F b is_temp index w = Some (v, b')"
    using smooth_value_shape [OF assms, of F is_temp index w] by blast
  have 2: "smooth_value F b is_temp index w = Some (0, b)" if "get_size b = 0"
    using that by (simp add: smooth_value_empty get_size_def)
  have 3: "smooth_value F b is_temp index w = smooth_value F b is_temp (get_size b - 1) w"
    if "0 < get_size b \<and> get_size b \<le> index"
  proof -
    have "min index (size_cb b - 1) = size_cb b - 1"
      using that unfolding get_size_def by arith
    then show ?thesis
      using smooth_value_clamp [of b F is_temp index w] that by (simp add: get_size_def)
  qed
  have 4: "smooth_value F b is_temp index w =
              smooth_value F b is_temp (min index (get_size b - 1)) w \<and>
            map_option fst (smooth_value F b is_temp index w) =
              Some (if cache_of b is_temp ! min index (get_size b - 1) = 0
                    then smoothed F (contents b) is_temp (min index (get_size b - 1)) w
                    else cache_of b is_temp ! min index (get_size b - 1))"
    if "0 < get_size b"
  proof -
    have p: "0 < size_cb b" using that by (simp add: get_size_def)
    show ?thesis
      unfolding get_size_def
      using smooth_value_clamp [OF p, of F is_temp index w]
        smooth_value_value [OF assms p, of F is_temp index w]
      by (rule conjI)
  qed
  have 5: "map_option fst (smooth_value F b is_temp index 5) =
              Some (float_mean F
                      (map (field is_temp) (window (contents b) (get_size b - 1) 5)))"
    if h: "b = run_ops F (CircularBuffer_new mem) ops \<and> 0 < get_size b \<and> get_size b \<le> index"
  proof -
    have c: "cache_ok F b" using reachable_inv(2) [of F mem ops] h by blast
    have p: "0 < size_cb b" using h unfolding get_size_def by blast
    have "min index (size_cb b - 1) = get_size b - 1"
      using h unfolding get_size_def by arith
    then show ?thesis using smooth_value_5_value [OF assms c p, of is_temp index] by simp
  qed
  show ?thesis using 1 2 3 4 5 by blast
qed

theorem smooth_value_never_fails_witness:
  "wf_cb (CircularBuffer_new (\<lambda>_. zero_point)) \<and>
   get_size (CircularBuffer_new (\<lambda>_. zero_point)) = 0 \<and>
   smooth_value ieee_single (CircularBuffer_new (\<lambda>_. zero_point)) True 7 5
     = Some (0, CircularBuffer_new (\<lambda>_. zero_point)) \<and>
   wf_cb (run_ops ieee_single (CircularBuffer_new (\<lambda>_. zero_point)) (map Push three_points)) \<and>
   0 < get_size (run_ops ieee_single (CircularBuffer_new (\<lambda>_. zero_point)) (map Push three_points)) \<and>
   get_size (run_ops ieee_single (CircularBuffer_new (\<lambda>_. zero_point)) (map Push three_points)) \<le> 7 \<and>
   map_option fst (smooth_value ieee_single
       (run_ops ieee_single (CircularBuffer_new (\<lambda>_. zero_point)) (map Push three_points))
       False 7 5) = Some 1001 \<and>
   smooth_value ieee_single
       (run_ops ieee_single (CircularBuffer_new (\<lambda>_. zero_point)) (map Push three_points))
       False 7 5
     = smooth_value ieee_single
         (run_ops ieee_single (CircularBuffer_new (\<lambda>_. zero_point)) (map Push three_points))
         False 2 5"
proof -
  have e: "get_size (CircularBuffer_new (\<lambda>_. zero_point)) = 0"
    by (simp add: get_size_def CircularBuffer_new_def)
  have w: "wf_cb (run_ops ieee_single (CircularBuffer_new (\<lambda>_. zero_point))
      (map Push three_points))"
    by (rule reachable_inv)
  have g: "get_size (run_ops ieee_single (CircularBuffer_new (\<lambda>_. zero_point))
      (map Push three_points)) = 3"
    by (simp add: get_size_def run_ops_def three_points_def push_def CircularBuffer_new_def
        MAX_POINTS_def)
  have v: "float_mean ieee_single (map (field False) (window (contents
       (run_ops ieee_single (CircularBuffer_new (\<lambda>_. zero_point)) (map Push three_points)))
       2 5)) = 1001"
    by code_simp
  have t: "(3::nat) - 1 = 2" by simp
  have g0: "0 < get_size (run_ops ieee_single (CircularBuffer_new (\<lambda>_. zero_point))
      (map Push three_points))"
    and g7: "get_size (run_ops ieee_single (CircularBuffer_new (\<lambda>_. zero_point))
      (map Push three_points)) \<le> 7"
    unfolding g by simp_all
  note empty = smooth_value_never_fails [OF wf_new, where F = ieee_single and is_temp = True
      and index = 7 and w = 5]
  note full = smooth_value_never_fails [OF w, where F = ieee_single and is_temp = False
      and index = 7 and w = 5 and mem = "\<lambda>_. zero_point" and ops = "map Push three_points"]
  have 1: "smooth_value ieee_single (CircularBuffer_new (\<lambda>_. zero_point)) True 7 5
     = Some (0, CircularBuffer_new (\<lambda>_. zero_point))"
    using empty e by blast
  have "map_option fst (smooth_value ieee_single
       (run_ops ieee_single (CircularBuffer_new (\<lambda>_. zero_point)) (map Push three_points))
       False 7 5) =
     Some (float_mean ieee_single (map (field False) (window (contents
       (run_ops ieee_single (CircularBuffer_new (\<lambda>_. zero_point)) (map Push three_points)))
       (get_size (run_ops ieee_single (CircularBuffer_new (\<lambda>_. zero_point))
          (map Push three_points)) - 1) 5)))"
    using full g0 g7 by blast
  then have 2: "map_option fst (smooth_value ieee_single
       (run_ops ieee_single (CircularBuffer_new (\<lambda>_. zero_point)) (map Push three_points))
       False 7 5) = Some 1001"
    unfolding g t v .
  have "smooth_value ieee_single
       (run_ops ieee_single (CircularBuffer_new (\<lambda>_. zero_point)) (map Push three_points))
       False 7 5
     = smooth_value ieee_single
         (run_ops ieee_single (CircularBuffer_new (\<lambda>_. zero_point)) (map Push three_points))
         False (get_size (run_ops ieee_single (CircularBuffer_new (\<lambda>_. zero_point))
          (map Push three_points)) - 1) 5"
    using full g0 g7 by blast
  then have 3: "smooth_value ieee_single
       (run_ops ieee_single (CircularBuffer_new (\<lambda>_. zero_point)) (map Push three_points))
       False 7 5
     = smooth_value ieee_single
         (run_ops ieee_single (CircularBuffer_new (\<lambda>_. zero_point)) (map Push three_points))
         False 2 5"
    unfolding g t .
  show ?thesis
    by (intro conjI) (rule wf_new e 1 w g0 g7 2 3)+
qed

subsection \<open>C5: indexed access\<close>

text \<open>
  With one sample stored, index 1 is not below \<^verbatim>\<open>get_size()\<close>, and \<^verbatim>\<open>operator[]\<close>
  answers with the content of array slot 1 instead of failing.
\<close>

theorem at_cb_beyond_size_returns:
  "get_size (push (CircularBuffer_new (\<lambda>_. \<lparr>temperature = 0, pressure = 0, timestamp = 0\<rparr>))
      \<lparr>temperature = 20, pressure = 1000, timestamp = 1\<rparr>) = 1 \<and>
   at_cb (push (CircularBuffer_new (\<lambda>_. \<lparr>temperature = 0, pressure = 0, timestamp = 0\<rparr>))
      \<lparr>temperature = 20, pressure = 1000, timestamp = 1\<rparr>) 1
     = Inr \<lparr>temperature = 0, pressure = 0, timestamp = 0\<rparr>"
  by (simp add: get_size_def at_cb_def slot_def push_def CircularBuffer_new_def MAX_POINTS_def)

text \<open>
  C5, as the code has it.  Let the buffer be the result of pushing \<open>xs\<close> into an empty
  well-formed buffer.  \<^verbatim>\<open>operator[]\<close> throws \<^verbatim>\<open>std::out_of_range\<close> exactly when no
  sample is stored; with samples stored it returns, for every index below
  \<^verbatim>\<open>get_size()\<close>, the sample at that logical position (0 is the oldest retained one), and
  for an index at or beyond \<^verbatim>\<open>get_size()\<close> it does not throw but returns the array slot
  the index arithmetic lands on.
\<close>

theorem at_cb_fails_only_when_empty:
  assumes "wf_cb b0" and "size_cb b0 = 0"
  shows "(at_cb (pushes b0 xs) i = Inl (Out_of_range ''Buffer is empty'') \<longleftrightarrow> xs = []) \<and>
         (i < get_size (pushes b0 xs) \<longrightarrow>
            at_cb (pushes b0 xs) i = Inr (drop (length xs - MAX_POINTS) xs ! i)) \<and>
         (xs \<noteq> [] \<longrightarrow> at_cb (pushes b0 xs) i = Inr (buffer (pushes b0 xs) ! slot (pushes b0 xs) i))"
proof -
  have w: "wf_cb (pushes b0 xs)" using assms(1) by (rule wf_pushes)
  have c0: "contents b0 = []" using assms(2) by (simp add: contents_def)
  have sz: "size_cb (pushes b0 xs) = min MAX_POINTS (length xs)"
    using size_pushes [OF assms(1), of xs] assms(2) by simp
  have c: "contents (pushes b0 xs) = drop (length xs - MAX_POINTS) xs"
    unfolding contents_pushes [OF assms(1)] c0 by simp
  have e: "size_cb (pushes b0 xs) = 0 \<longleftrightarrow> xs = []"
    unfolding sz using MAX_POINTS_pos by (cases xs) (simp_all add: min_def)
  have 1: "at_cb (pushes b0 xs) i = Inl (Out_of_range ''Buffer is empty'') \<longleftrightarrow> xs = []"
    using e by (simp add: at_cb_def)
  have 2: "at_cb (pushes b0 xs) i = Inr (drop (length xs - MAX_POINTS) xs ! i)"
    if "i < get_size (pushes b0 xs)"
    using at_cb_contents [OF w, of i] that unfolding c by (simp add: get_size_def)
  have 3: "at_cb (pushes b0 xs) i = Inr (buffer (pushes b0 xs) ! slot (pushes b0 xs) i)"
    if "xs \<noteq> []"
    using e that by (simp add: at_cb_def)
  show ?thesis using 1 2 3 by blast
qed

theorem at_cb_fails_only_when_empty_witness:
  "wf_cb (CircularBuffer_new (\<lambda>_. \<lparr>temperature = 0, pressure = 0, timestamp = 0\<rparr>)) \<and>
   size_cb (CircularBuffer_new (\<lambda>_. \<lparr>temperature = 0, pressure = 0, timestamp = 0\<rparr>)) = 0 \<and>
   0 < get_size (pushes (CircularBuffer_new (\<lambda>_. \<lparr>temperature = 0, pressure = 0, timestamp = 0\<rparr>))
         [\<lparr>temperature = 20, pressure = 1000, timestamp = 1\<rparr>]) \<and>
   at_cb (pushes (CircularBuffer_new (\<lambda>_. \<lparr>temperature = 0, pressure = 0, timestamp = 0\<rparr>))
         [\<lparr>temperature = 20, pressure = 1000, timestamp = 1\<rparr>]) 0
     = Inr \<lparr>temperature = 20, pressure = 1000, timestamp = 1\<rparr>"
proof -
  have s: "size_cb (CircularBuffer_new (\<lambda>_. \<lparr>temperature = 0, pressure = 0, timestamp = 0\<rparr>)) = 0"
    by (simp add: CircularBuffer_new_def)
  have g: "get_size (pushes (CircularBuffer_new (\<lambda>_. \<lparr>temperature = 0, pressure = 0, timestamp = 0\<rparr>))
         [\<lparr>temperature = 20, pressure = 1000, timestamp = 1\<rparr>]) = 1"
    by (simp add: get_size_def pushes_def push_def CircularBuffer_new_def MAX_POINTS_def)
  show ?thesis
    using at_cb_fails_only_when_empty [OF wf_new s,
        of "[\<lparr>temperature = 20, pressure = 1000, timestamp = 1\<rparr>]" 0] s g
    by (simp add: wf_new MAX_POINTS_def)
qed

subsection \<open>C4: one sample per read, and only from a complete pair\<close>

text \<open>
  C4.  Take a call of \<^verbatim>\<open>read_serial\<close> on an open, unpaused link for which
  \<^verbatim>\<open>select\<close> reports data and \<^verbatim>\<open>read\<close> delivers the non-empty chunk \<open>data\<close>.  The
  pending bytes followed by the chunk split into newline-terminated lines and a remainder
  without newline; exactly those lines are parsed, the remainder is retained as the new pending
  buffer, and the history receives exactly one sample if at least one of the lines yielded an
  in-range temperature and at least one an in-range pressure (the latest value of each, stamped
  with the current time), and is unchanged otherwise.
\<close>

theorem read_serial_pushes_iff_both_fields:
  assumes "fd g \<noteq> - 1" and "\<not> paused g" and "0 < ready"
    and "data = take (BUFFER_SIZE - length (serial_buffer g) - 1) avail" and "data \<noteq> []"
  shows "\<exists>lines rest.
    serial_buffer g @ data = concat (map (\<lambda>l. l @ [newline]) lines) @ rest \<and>
    newline \<notin> set rest \<and> (\<forall>l\<in>set lines. newline \<notin> set l) \<and>
    serial_buffer (read_serial L now ready e (Read_gives avail) g) = rest \<and>
    history (read_serial L now ready e (Read_gives avail) g) =
      (if List.map_filter (temperature_of L) lines \<noteq> [] \<and>
          List.map_filter (pressure_of L) lines \<noteq> []
       then push (history g)
              \<lparr>temperature = last (List.map_filter (temperature_of L) lines),
               pressure = last (List.map_filter (pressure_of L) lines),
               timestamp = now\<rparr>
       else history g)"
  using read_serial_gives [OF assms, of L now e] by blast

theorem read_serial_pushes_iff_both_fields_witness:
  "fd example_gui \<noteq> - 1 \<and> \<not> paused example_gui \<and> (0::int) < 1 \<and>
   take (BUFFER_SIZE - length (serial_buffer example_gui) - 1)
     (''Temp: 23.5'' @ [newline] @ ''Pres: 990.0'' @ [newline]) \<noteq> [] \<and>
   contents (history (read_serial example_lib 1000 1 []
     (Read_gives (''Temp: 23.5'' @ [newline] @ ''Pres: 990.0'' @ [newline])) example_gui))
     = [\<lparr>temperature = 47 / 2, pressure = 990, timestamp = 1000\<rparr>] \<and>
   (\<exists>lines rest.
      serial_buffer example_gui @
        take (BUFFER_SIZE - length (serial_buffer example_gui) - 1)
          (''Temp: 23.5'' @ [newline] @ ''Pres: 990.0'' @ [newline])
        = concat (map (\<lambda>l. l @ [newline]) lines) @ rest \<and>
      serial_buffer (read_serial example_lib 1000 1 []
        (Read_gives (''Temp: 23.5'' @ [newline] @ ''Pres: 990.0'' @ [newline])) example_gui) = rest)"
proof -
  have h1: "fd example_gui \<noteq> - 1" and h2: "\<not> paused example_gui"
    by (simp_all add: example_gui_def)
  have h3: "(0::int) < 1" by simp
  have h5: "take (BUFFER_SIZE - length (serial_buffer example_gui) - 1)
     (''Temp: 23.5'' @ [newline] @ ''Pres: 990.0'' @ [newline]) \<noteq> []"
    by (simp add: BUFFER_SIZE_def example_gui_def)
  have c: "contents (history (read_serial example_lib 1000 1 []
     (Read_gives (''Temp: 23.5'' @ [newline] @ ''Pres: 990.0'' @ [newline])) example_gui))
     = [\<lparr>temperature = 47 / 2, pressure = 990, timestamp = 1000\<rparr>]"
    by code_simp
  show ?thesis
    using read_serial_pushes_iff_both_fields [OF h1 h2 h3 refl h5, of example_lib 1000 "[]"]
      h1 h2 h3 h5 c
    by blast
qed

subsection \<open>C8: a full pending buffer\<close>

text \<open>
  The claim asks for a failure that drops the pending bytes when the buffer fills without a
  newline.  The code has no such branch.  With 255 bytes pending and no newline among them, a
  read that is offered a complete line takes nothing, reports nothing and keeps the pending
  bytes.
\<close>

theorem read_serial_full_buffer_kept:
  "length (serial_buffer full_gui) = BUFFER_SIZE - 1 \<and>
   newline \<notin> set (serial_buffer full_gui) \<and>
   error_messages full_gui = [] \<and>
   read_serial example_lib 1001 1 [] (Read_gives (''Temp: 23.5'' @ [newline])) full_gui = full_gui"
  by (simp add: read_serial_def full_gui_def example_gui_def BUFFER_SIZE_def newline_def)

text \<open>
  C8.  What the code does where the claim asks for the failure.  A read takes at most the free
  space of the pending buffer, so the buffer holds at most \<open>BUFFER_SIZE - 1\<close> bytes.  Once
  it holds that many, \<^verbatim>\<open>read\<close> is asked for 0 bytes and the call returns through the
  "no data" exit: the state stays as it is, and in every later sequence of reads the pending
  bytes and the history never change again.  Nothing is reported and the port stays open,
  unlike the failure paths of the same function, which report the error and close the port so
  that the reconnection can start over.  Acquisition has stopped for good.
\<close>

theorem read_serial_full_buffer_stalls:
  assumes "length (serial_buffer g) < BUFFER_SIZE"
  shows "length (serial_buffer (read_serial_run L g evs)) < BUFFER_SIZE \<and>
         (length (serial_buffer g) = BUFFER_SIZE - 1 \<longrightarrow>
            (0 \<le> ready \<longrightarrow> read_serial L now ready e (Read_gives avail) g = g) \<and>
            serial_buffer (read_serial_run L g evs) = serial_buffer g \<and>
            history (read_serial_run L g evs) = history g)"
  using read_serial_run_bounded [OF assms, of L evs]
    read_serial_full(1) [of g ready L now e avail]
    read_serial_run_full [of g L evs]
  by blast

theorem read_serial_full_buffer_stalls_witness:
  "length (serial_buffer full_gui) < BUFFER_SIZE \<and>
   length (serial_buffer full_gui) = BUFFER_SIZE - 1 \<and> (0::int) \<le> 1 \<and>
   serial_buffer (read_serial_run example_lib full_gui
      [(1001, 1, [], Read_gives (''Temp: 23.5'' @ [newline])),
       (1002, 1, [], Read_gives (''Pres: 990.0'' @ [newline]))]) = serial_buffer full_gui \<and>
   history (read_serial_run example_lib full_gui
      [(1001, 1, [], Read_gives (''Temp: 23.5'' @ [newline])),
       (1002, 1, [], Read_gives (''Pres: 990.0'' @ [newline]))]) = history full_gui"
proof -
  have l: "length (serial_buffer full_gui) < BUFFER_SIZE"
    by (simp add: full_gui_def BUFFER_SIZE_def)
  have f: "length (serial_buffer full_gui) = BUFFER_SIZE - 1"
    by (simp add: full_gui_def BUFFER_SIZE_def)
  show ?thesis
    using read_serial_full_buffer_stalls [OF l, of example_lib
        "[(1001, 1, [], Read_gives (''Temp: 23.5'' @ [newline])),
          (1002, 1, [], Read_gives (''Pres: 990.0'' @ [newline]))]" 1] l f
    by simp
qed

subsection \<open>C6: the reconnection policy\<close>

text \<open>
  C6.  Take any execution from a state whose attempt counter is not negative.  A call of
  \<^verbatim>\<open>try_reconnect\<close> either makes an attempt, and then stamps the time, or leaves the
  whole state as it is: the attempts of an execution are exactly its calls that change the
  state, so the port cannot be opened, nor anything be reported, outside an attempt.
  Attempts are made only while the port is closed; each is at least \<^verbatim>\<open>RECONNECT_TIMEOUT\<close>
  = 5 seconds after the previous one (and after the stamp the execution started with); after
  \<^verbatim>\<open>max_reconnect_attempts\<close> = 10 consecutive failed attempts the execution contains no
  further attempt; in a state whose counter has reached 10 a call of \<^verbatim>\<open>try_reconnect\<close>
  changes nothing; and an attempt that ends with an open port resets the counter to 0 and
  empties both error lists, while a failed one counts up by one.
\<close>

theorem reconnect_policy:
  assumes "0 \<le> reconnect_attempts g"
  shows "spaced (last_reconnect_attempt g) (attempts g steps) \<and>
    attempts g steps = state_changes g steps \<and>
    (attempt_made g now \<longleftrightarrow> try_reconnect sys now g \<noteq> g) \<and>
    (\<not> attempt_made g now \<longrightarrow> try_reconnect sys now g = g) \<and>
    (attempt_made g now \<longrightarrow> last_reconnect_attempt (try_reconnect sys now g) = now) \<and>
    (attempt_made g now \<longrightarrow>
       fd g = - 1 \<and> RECONNECT_TIMEOUT \<le> now - last_reconnect_attempt g \<and>
       reconnect_attempts g < max_reconnect_attempts) \<and>
    (attempt_made g now \<longrightarrow> fd g = - 1) \<and>
    (\<forall>k. k + nat max_reconnect_attempts \<le> length (attempts g steps) \<and>
         (\<forall>j<nat max_reconnect_attempts. \<not> snd (attempts g steps ! (k + j))) \<longrightarrow>
         length (attempts g steps) = k + nat max_reconnect_attempts) \<and>
    (max_reconnect_attempts \<le> reconnect_attempts g \<longrightarrow>
       attempts g steps = [] \<and> try_reconnect sys now g = g) \<and>
    (attempt_made g now \<and> fd (try_reconnect sys now g) \<noteq> - 1 \<longrightarrow>
       reconnect_attempts (try_reconnect sys now g) = 0 \<and>
       error_messages (try_reconnect sys now g) = [] \<and>
       persistent_errors (try_reconnect sys now g) = []) \<and>
    (attempt_made g now \<and> fd (try_reconnect sys now g) = - 1 \<longrightarrow>
       reconnect_attempts (try_reconnect sys now g) = reconnect_attempts g + 1)"
proof -
  have 1: "spaced (last_reconnect_attempt g) (attempts g steps)"
    by (rule attempts_spaced)
  have 2: "attempt_made g now \<longrightarrow> fd g = - 1"
    by (simp add: attempt_made_def)
  have 3: "length (attempts g steps) = k + nat max_reconnect_attempts"
    if h: "k + nat max_reconnect_attempts \<le> length (attempts g steps) \<and>
         (\<forall>j<nat max_reconnect_attempts. \<not> snd (attempts g steps ! (k + j)))" for k
  proof -
    obtain g' steps' where g': "0 \<le> reconnect_attempts g'"
      and d: "drop k (attempts g steps) = attempts g' steps'"
      using attempts_suffix [OF assms, of k steps] by blast
    have h1: "k + nat max_reconnect_attempts \<le> length (attempts g steps)"
      and h2: "\<forall>j<nat max_reconnect_attempts. \<not> snd (attempts g steps ! (k + j))"
      using h by blast+
    have a: "nat max_reconnect_attempts \<le> length (attempts g' steps')"
      unfolding d [symmetric] length_drop using h1 by arith
    have b: "\<forall>j<nat max_reconnect_attempts. \<not> snd (attempts g' steps' ! j)"
    proof (intro allI impI)
      fix j assume j: "j < nat max_reconnect_attempts"
      then have "k + j < length (attempts g steps)" using h1 by arith
      then have "drop k (attempts g steps) ! j = attempts g steps ! (k + j)" by simp
      then show "\<not> snd (attempts g' steps' ! j)" using h2 j unfolding d [symmetric] by simp
    qed
    have c: "max_reconnect_attempts \<le> reconnect_attempts g' + int (nat max_reconnect_attempts)"
      using g' by (simp add: max_reconnect_attempts_def)
    have "length (attempts g' steps') = nat max_reconnect_attempts"
      using attempts_exhausted [OF a b c] .
    then have "length (attempts g steps) - k = nat max_reconnect_attempts"
      unfolding d [symmetric] length_drop .
    then show ?thesis using h1 by arith
  qed
  have 4: "attempts g steps = [] \<and> try_reconnect sys now g = g"
    if "max_reconnect_attempts \<le> reconnect_attempts g"
  proof -
    have "length (attempts g steps) = 0"
      using attempts_exhausted [of 0 g steps] that by simp
    moreover have "\<not> attempt_made g now" using that by (simp add: attempt_made_def)
    ultimately show ?thesis using try_reconnect_skip [of g now sys] by simp
  qed
  have 5: "attempts g steps = state_changes g steps"
    by (rule attempts_state_changes)
  have 6: "attempt_made g now \<longleftrightarrow> try_reconnect sys now g \<noteq> g"
    by (rule try_reconnect_changes)
  have 7: "attempt_made g now \<longrightarrow>
       fd g = - 1 \<and> RECONNECT_TIMEOUT \<le> now - last_reconnect_attempt g \<and>
       reconnect_attempts g < max_reconnect_attempts"
    by (auto simp: attempt_made_def)
  have 8: "attempt_made g now \<longrightarrow> last_reconnect_attempt (try_reconnect sys now g) = now"
    using try_reconnect_attempt [of g now sys] by blast
  have 9: "attempt_made g now \<and> fd (try_reconnect sys now g) \<noteq> - 1 \<longrightarrow>
       reconnect_attempts (try_reconnect sys now g) = 0 \<and>
       error_messages (try_reconnect sys now g) = [] \<and>
       persistent_errors (try_reconnect sys now g) = []"
    using try_reconnect_attempt [of g now sys] by blast
  have 10: "attempt_made g now \<and> fd (try_reconnect sys now g) = - 1 \<longrightarrow>
       reconnect_attempts (try_reconnect sys now g) = reconnect_attempts g + 1"
    using try_reconnect_attempt [of g now sys] by blast
  have 11: "\<not> attempt_made g now \<longrightarrow> try_reconnect sys now g = g"
    using 6 by blast
  show ?thesis
    using 1 2 3 4 5 6 7 8 9 10 11 by (intro conjI) blast+
qed

theorem reconnect_policy_witness:
  "0 \<le> reconnect_attempts offline_gui \<and>
   attempts offline_gui (map (\<lambda>t. Reconnect no_device (int t)) [0..<100])
     = [(5, False), (10, False), (15, False), (20, False), (25, False),
        (30, False), (35, False), (40, False), (45, False), (50, False)] \<and>
   attempt_made offline_gui 17 \<and> fd (try_reconnect device_usb0 17 offline_gui) \<noteq> - 1 \<and>
   reconnect_attempts (try_reconnect device_usb0 17 offline_gui) = 0 \<and>
   attempt_made offline_gui 5 \<and> fd (try_reconnect no_device 5 offline_gui) = - 1 \<and>
   reconnect_attempts (try_reconnect no_device 5 offline_gui) = 1 \<and>
   0 \<le> reconnect_attempts (offline_gui\<lparr>reconnect_attempts := 10\<rparr>) \<and>
   max_reconnect_attempts \<le> reconnect_attempts (offline_gui\<lparr>reconnect_attempts := 10\<rparr>) \<and>
   try_reconnect device_usb0 17 (offline_gui\<lparr>reconnect_attempts := 10\<rparr>)
     = offline_gui\<lparr>reconnect_attempts := 10\<rparr> \<and>
   0 \<le> reconnect_attempts cooling_gui \<and> last_reconnect_attempt cooling_gui = 5 \<and>
   \<not> attempt_made cooling_gui 7 \<and>
   try_reconnect device_usb0 7 cooling_gui = cooling_gui \<and> fd cooling_gui = - 1 \<and>
   state_changes offline_gui
     [Reconnect no_device 5, Reconnect device_usb0 7, Reconnect device_usb0 9,
      Reconnect device_usb0 10, Reconnect device_usb0 11]
     = [(5, False), (10, True)]"
proof -
  have r0: "reconnect_attempts offline_gui = 0"
    by (simp add: offline_gui_def example_gui_def)
  have r: "0 \<le> reconnect_attempts offline_gui"
    by (simp add: r0)
  have a: "attempts offline_gui (map (\<lambda>t. Reconnect no_device (int t)) [0..<100])
     = [(5, False), (10, False), (15, False), (20, False), (25, False),
        (30, False), (35, False), (40, False), (45, False), (50, False)]"
    by code_simp
  have m17: "attempt_made offline_gui 17" and m5: "attempt_made offline_gui 5"
    by (simp_all add: attempt_made_def offline_gui_def example_gui_def
        max_reconnect_attempts_def RECONNECT_TIMEOUT_def)
  have f17: "fd (try_reconnect device_usb0 17 offline_gui) \<noteq> - 1"
    by code_simp
  have f5: "fd (try_reconnect no_device 5 offline_gui) = - 1"
    by code_simp
  have z: "0 \<le> reconnect_attempts (offline_gui\<lparr>reconnect_attempts := 10\<rparr>)"
    by simp
  have x: "max_reconnect_attempts \<le> reconnect_attempts (offline_gui\<lparr>reconnect_attempts := 10\<rparr>)"
    by (simp add: max_reconnect_attempts_def)
  have c0: "0 \<le> reconnect_attempts cooling_gui"
    by code_simp
  have c5: "last_reconnect_attempt cooling_gui = 5"
    by code_simp
  have cn: "\<not> attempt_made cooling_gui 7"
    by code_simp
  have cf: "fd cooling_gui = - 1"
    by code_simp
  have s: "attempts offline_gui
     [Reconnect no_device 5, Reconnect device_usb0 7, Reconnect device_usb0 9,
      Reconnect device_usb0 10, Reconnect device_usb0 11]
     = [(5, False), (10, True)]"
    by code_simp
  note p17 = reconnect_policy [OF r, where now = 17 and steps = "[]" and sys = device_usb0]
  note p5 = reconnect_policy [OF r, where now = 5 and sys = no_device and steps =
        "[Reconnect no_device 5, Reconnect device_usb0 7, Reconnect device_usb0 9,
          Reconnect device_usb0 10, Reconnect device_usb0 11]"]
  note p10 = reconnect_policy [OF z, where now = 17 and steps = "[]" and sys = device_usb0]
  note pc = reconnect_policy [OF c0, where now = 7 and steps = "[]" and sys = device_usb0]
  have ok: "reconnect_attempts (try_reconnect device_usb0 17 offline_gui) = 0"
    using p17 m17 f17 by blast
  have "reconnect_attempts (try_reconnect no_device 5 offline_gui) = reconnect_attempts offline_gui + 1"
    using p5 m5 f5 by blast
  then have fail: "reconnect_attempts (try_reconnect no_device 5 offline_gui) = 1"
    unfolding r0 by simp
  have stop: "try_reconnect device_usb0 17 (offline_gui\<lparr>reconnect_attempts := 10\<rparr>)
     = offline_gui\<lparr>reconnect_attempts := 10\<rparr>"
    using p10 x by blast
  have cool: "try_reconnect device_usb0 7 cooling_gui = cooling_gui"
    using pc cn by blast
  have "attempts offline_gui
     [Reconnect no_device 5, Reconnect device_usb0 7, Reconnect device_usb0 9,
      Reconnect device_usb0 10, Reconnect device_usb0 11] =
    state_changes offline_gui
     [Reconnect no_device 5, Reconnect device_usb0 7, Reconnect device_usb0 9,
      Reconnect device_usb0 10, Reconnect device_usb0 11]"
    using p5 by blast
  then have sc: "state_changes offline_gui
     [Reconnect no_device 5, Reconnect device_usb0 7, Reconnect device_usb0 9,
      Reconnect device_usb0 10, Reconnect device_usb0 11]
     = [(5, False), (10, True)]"
    unfolding s [symmetric] by (rule sym)
  show ?thesis
    by (intro conjI) (rule r a m17 f17 ok m5 f5 fail z x stop c0 c5 cn cool cf sc)+
qed

subsection \<open>C9: exit codes\<close>

text \<open>
  C9.  The display opens, the window is exposed, and in the second round of the loop the user
  presses \<^verbatim>\<open>q\<close>: \<^verbatim>\<open>main\<close> returns 1, through the handler that also serves the
  failures.  (\<open>main_never_exits_0\<close>: no run returns 0, since the loop is left by an
  exception only; \<open>main_no_display\<close>: a display that does not open gives 1.)
\<close>

theorem main_user_quit_returns_1:
  "main True [Expose] [[Other_event], [KeyPress XK_q]] = Some 1"
  by (simp add: main_def run_def BMP280Gui_new_def)

end
